theory Spec2Isabelle
  imports Main
begin

section \<open>Data model\<close>

text \<open>
  The seven piece kinds are the keys \<open>'I'\<close>, \<open>'O'\<close>, \<open>'T'\<close>, \<open>'S'\<close>, \<open>'Z'\<close>, \<open>'J'\<close>, \<open>'L'\<close> of
  the dictionary \<open>PIECES\<close>, written \<open>KI\<close> ... \<open>KL\<close> here.  A cell of the board
  grid is \<open>None\<close> (empty) or the kind of the piece that was locked there.
\<close>

datatype kind = KI | KO | KT | KS | KZ | KJ | KL

text \<open>The two exceptions the engine code can raise on ill-shaped data.\<close>

datatype error = IndexError | ZeroDivisionError

definition BOARD_WIDTH :: int where
  "BOARD_WIDTH = 10"

definition BOARD_HEIGHT :: int where
  "BOARD_HEIGHT = 20"

definition FALL_SPEED :: int where
  "FALL_SPEED = 500"

text \<open>The shape catalogue: for each kind the list of its rotation states (1 = block).\<close>

fun PIECES :: "kind \<Rightarrow> int list list list" where
  "PIECES KI = [[[1, 1, 1, 1]],
                [[1], [1], [1], [1]]]"
| "PIECES KO = [[[1, 1], [1, 1]]]"
| "PIECES KT = [[[0, 1, 0], [1, 1, 1]],
               [[1, 0], [1, 1], [1, 0]],
               [[1, 1, 1], [0, 1, 0]],
               [[0, 1], [1, 1], [0, 1]]]"
| "PIECES KS = [[[0, 1, 1], [1, 1, 0]],
               [[1, 0], [1, 1], [0, 1]]]"
| "PIECES KZ = [[[1, 1, 0], [0, 1, 1]],
               [[0, 1], [1, 1], [1, 0]]]"
| "PIECES KJ = [[[1, 0, 0], [1, 1, 1]],
               [[1, 1], [1, 0], [1, 0]],
               [[1, 1, 1], [0, 0, 1]],
               [[0, 1], [0, 1], [1, 1]]]"
| "PIECES KL = [[[0, 0, 1], [1, 1, 1]],
               [[1, 0], [1, 0], [1, 1]],
               [[1, 1, 1], [1, 0, 0]],
               [[1, 1], [0, 1], [0, 1]]]"

record Piece =
  type :: kind
  rotation :: int
  rotations :: "int list list list"
  shape :: "int list list"
  x :: int
  y :: int

record Board =
  width :: int
  height :: int
  grid :: "kind option list list"

record Tetris =
  board :: Board
  current_piece :: Piece
  next_piece :: Piece
  score :: int
  lines_cleared :: int
  game_over :: bool
  last_fall_time :: int
  fall_speed :: int

section \<open>Python list indexing\<close>

text \<open>
  \<open>xs[i]\<close> counts a negative index from the end and raises \<open>IndexError\<close> outside the
  list; \<open>xs[i] = v\<close> does the same before it stores.
\<close>

definition norm_index :: "'a list \<Rightarrow> int \<Rightarrow> error + nat" where
  "norm_index xs i =
     (if 0 \<le> i \<and> i < int (length xs) then Inr (nat i)
      else if i < 0 \<and> 0 \<le> int (length xs) + i then Inr (nat (int (length xs) + i))
      else Inl IndexError)"

definition getitem :: "'a list \<Rightarrow> int \<Rightarrow> error + 'a" where
  "getitem xs i = (case norm_index xs i of Inl e \<Rightarrow> Inl e | Inr j \<Rightarrow> Inr (xs ! j))"

definition setitem :: "'a list \<Rightarrow> int \<Rightarrow> 'a \<Rightarrow> error + 'a list" where
  "setitem xs i v = (case norm_index xs i of Inl e \<Rightarrow> Inl e | Inr j \<Rightarrow> Inr (xs[j := v]))"

section \<open>Class Piece\<close>

text \<open>\<open>Piece(piece_type)\<close>; for \<open>Piece()\<close> the argument is the kind that \<open>random.choice\<close> drew.\<close>

definition Piece_init :: "kind \<Rightarrow> Piece" where
  "Piece_init piece_type =
     \<lparr>type = piece_type, rotation = 0, rotations = PIECES piece_type,
      shape = PIECES piece_type ! 0, x = 3, y = 0\<rparr>"

text \<open>
  \<open>Piece.rotate\<close>: the modulus raises on an empty rotation list; after it the index is in
  range, so the read of \<open>self.rotations[self.rotation]\<close> cannot fail.
\<close>

definition Piece_rotate :: "Piece \<Rightarrow> error + Piece" where
  "Piece_rotate p =
     (if length (rotations p) = 0 then Inl ZeroDivisionError
      else let r = (rotation p + 1) mod int (length (rotations p))
           in Inr (p\<lparr>rotation := r, shape := rotations p ! nat r\<rparr>))"

text \<open>\<open>Piece.get_positions\<close>: the absolute (column, row) of every non-zero matrix cell.\<close>

definition row_positions :: "Piece \<Rightarrow> nat \<Rightarrow> int list \<Rightarrow> (int \<times> int) list" where
  "row_positions p row_idx row =
     map (\<lambda>(col_idx, cell). (x p + int col_idx, y p + int row_idx))
       (filter (\<lambda>(col_idx, cell). cell \<noteq> 0) (enumerate 0 row))"

definition get_positions :: "Piece \<Rightarrow> (int \<times> int) list" where
  "get_positions p =
     concat (map (\<lambda>(row_idx, row). row_positions p row_idx row) (enumerate 0 (shape p)))"

section \<open>Class Board\<close>

definition Board_init :: Board where
  "Board_init =
     \<lparr>width = BOARD_WIDTH, height = BOARD_HEIGHT,
      grid = replicate (nat BOARD_HEIGHT) (replicate (nat BOARD_WIDTH) None)\<rparr>"

text \<open>
  \<open>Board.is_valid_position\<close>: the loop over the positions returns at the first rejected
  cell; the grid is read only for a cell inside the side and bottom bounds with row \<open>\<ge> 0\<close>.
\<close>

fun valid_cells :: "Board \<Rightarrow> (int \<times> int) list \<Rightarrow> error + bool" where
  "valid_cells b [] = Inr True"
| "valid_cells b (pos # rest) =
     (if fst pos < 0 \<or> fst pos \<ge> width b then Inr False
      else if snd pos \<ge> height b then Inr False
      else if snd pos \<ge> 0 then
        (case getitem (grid b) (snd pos) of
           Inl e \<Rightarrow> Inl e
         | Inr row \<Rightarrow>
             (case getitem row (fst pos) of
                Inl e \<Rightarrow> Inl e
              | Inr cell \<Rightarrow> if cell \<noteq> None then Inr False else valid_cells b rest))
      else valid_cells b rest)"

definition is_valid_position :: "Board \<Rightarrow> Piece \<Rightarrow> error + bool" where
  "is_valid_position b piece = valid_cells b (get_positions piece)"

text \<open>
  \<open>Board.lock_piece\<close>: \<open>self.grid[y][x] = piece.type\<close> for the cells with row \<open>\<ge> 0\<close>.  The rows
  of a grid are distinct list objects, so the store changes one row.
\<close>

fun lock_cells :: "kind \<Rightarrow> kind option list list \<Rightarrow> (int \<times> int) list
    \<Rightarrow> error + kind option list list" where
  "lock_cells k g [] = Inr g"
| "lock_cells k g (pos # rest) =
     (if snd pos \<ge> 0 then
        (case norm_index g (snd pos) of
           Inl e \<Rightarrow> Inl e
         | Inr j \<Rightarrow>
             (case setitem (g ! j) (fst pos) (Some k) of
                Inl e \<Rightarrow> Inl e
              | Inr row \<Rightarrow> lock_cells k (g[j := row]) rest))
      else lock_cells k g rest)"

definition Board_lock_piece :: "Board \<Rightarrow> Piece \<Rightarrow> error + Board" where
  "Board_lock_piece b piece =
     (case lock_cells (type piece) (grid b) (get_positions piece) of
        Inl e \<Rightarrow> Inl e
      | Inr g \<Rightarrow> Inr (b\<lparr>grid := g\<rparr>))"

text \<open>
  \<open>Board.clear_lines\<close>: the first loop keeps the rows that hold a \<open>None\<close> and counts the
  others; the second inserts one empty row at index 0 per counted row.
\<close>

fun scan_rows :: "kind option list list \<Rightarrow> int \<Rightarrow> kind option list list
    \<Rightarrow> int \<times> kind option list list" where
  "scan_rows [] lines new_grid = (lines, new_grid)"
| "scan_rows (row # rest) lines new_grid =
     (if None \<in> set row then scan_rows rest lines (new_grid @ [row])
      else scan_rows rest (lines + 1) new_grid)"

fun insert_empty :: "nat \<Rightarrow> int \<Rightarrow> kind option list list \<Rightarrow> kind option list list" where
  "insert_empty 0 w new_grid = new_grid"
| "insert_empty (Suc n) w new_grid = insert_empty n w (replicate (nat w) None # new_grid)"

definition clear_lines :: "Board \<Rightarrow> Board \<times> int" where
  "clear_lines b =
     (case scan_rows (grid b) 0 [] of
        (lines, new_grid) \<Rightarrow> (b\<lparr>grid := insert_empty (nat lines) (width b) new_grid\<rparr>, lines))"

text \<open>\<open>Board.is_game_over\<close>: some cell of \<open>self.grid[0]\<close> is not \<open>None\<close>.\<close>

definition is_game_over :: "Board \<Rightarrow> error + bool" where
  "is_game_over b =
     (case getitem (grid b) 0 of
        Inl e \<Rightarrow> Inl e
      | Inr row \<Rightarrow> Inr (list_ex (\<lambda>cell. cell \<noteq> None) row))"

definition Board_reset :: "Board \<Rightarrow> Board" where
  "Board_reset b =
     b\<lparr>grid := replicate (nat (height b)) (replicate (nat (width b)) None)\<rparr>"

section \<open>Class Tetris\<close>

text \<open>
  The engine reads two things from outside: the kinds drawn by \<open>random.choice\<close> inside
  \<open>Piece()\<close> and the clock \<open>pygame.time.get_ticks()\<close>.  Both are arguments here.
\<close>

definition Tetris_init :: "kind \<Rightarrow> kind \<Rightarrow> int \<Rightarrow> Tetris" where
  "Tetris_init k1 k2 now =
     \<lparr>board = Board_init, current_piece = Piece_init k1, next_piece = Piece_init k2,
      score = 0, lines_cleared = 0, game_over = False,
      last_fall_time = now, fall_speed = FALL_SPEED\<rparr>"

definition set_x :: "int \<Rightarrow> Tetris \<Rightarrow> Tetris" where
  "set_x v t = t\<lparr>current_piece := (current_piece t)\<lparr>x := v\<rparr>\<rparr>"

definition set_y :: "int \<Rightarrow> Tetris \<Rightarrow> Tetris" where
  "set_y v t = t\<lparr>current_piece := (current_piece t)\<lparr>y := v\<rparr>\<rparr>"

definition move_left :: "Tetris \<Rightarrow> error + Tetris" where
  "move_left t =
     (let t1 = set_x (x (current_piece t) - 1) t in
      case is_valid_position (board t1) (current_piece t1) of
        Inl e \<Rightarrow> Inl e
      | Inr ok \<Rightarrow> if \<not> ok then Inr (set_x (x (current_piece t1) + 1) t1) else Inr t1)"

definition move_right :: "Tetris \<Rightarrow> error + Tetris" where
  "move_right t =
     (let t1 = set_x (x (current_piece t) + 1) t in
      case is_valid_position (board t1) (current_piece t1) of
        Inl e \<Rightarrow> Inl e
      | Inr ok \<Rightarrow> if \<not> ok then Inr (set_x (x (current_piece t1) - 1) t1) else Inr t1)"

text \<open>
  \<open>Tetris.lock_piece\<close>; \<open>k\<close> is the kind drawn for the new \<open>next_piece\<close>, used only when
  the top row is free after the lock.
\<close>

definition Tetris_lock_piece :: "kind \<Rightarrow> Tetris \<Rightarrow> error + Tetris" where
  "Tetris_lock_piece k t =
     (case Board_lock_piece (board t) (current_piece t) of
        Inl e \<Rightarrow> Inl e
      | Inr b1 \<Rightarrow>
          (case clear_lines b1 of
             (b2, lines) \<Rightarrow>
               (let t1 = t\<lparr>board := b2\<rparr>;
                    t2 = (if lines > 0
                          then t1\<lparr>lines_cleared := lines_cleared t1 + lines,
                                  score := score t1 + lines * 100 * lines\<rparr>
                          else t1)
                in case is_game_over (board t2) of
                     Inl e \<Rightarrow> Inl e
                   | Inr over \<Rightarrow>
                       if over then Inr (t2\<lparr>game_over := True\<rparr>)
                       else
                         (let t3 = t2\<lparr>current_piece := next_piece t2,
                                       next_piece := Piece_init k\<rparr>
                          in case is_valid_position (board t3) (current_piece t3) of
                               Inl e \<Rightarrow> Inl e
                             | Inr ok \<Rightarrow>
                                 if \<not> ok then Inr (t3\<lparr>game_over := True\<rparr>) else Inr t3))))"

text \<open>\<open>Tetris.move_down\<close> returns the flag and the new engine state.\<close>

definition move_down :: "kind \<Rightarrow> Tetris \<Rightarrow> error + (bool \<times> Tetris)" where
  "move_down k t =
     (let t1 = set_y (y (current_piece t) + 1) t in
      case is_valid_position (board t1) (current_piece t1) of
        Inl e \<Rightarrow> Inl e
      | Inr ok \<Rightarrow>
          if \<not> ok then
            (case Tetris_lock_piece k (set_y (y (current_piece t1) - 1) t1) of
               Inl e \<Rightarrow> Inl e
             | Inr t2 \<Rightarrow> Inr (False, t2))
          else Inr (True, t1))"

text \<open>
  \<open>Tetris.hard_drop\<close> is \<open>while self.move_down(): pass\<close>.  Nothing in the loop bounds the
  number of rounds, so the model is a partial function: \<open>None\<close> is a loop that never ends.
\<close>

partial_function (option) hard_drop :: "kind \<Rightarrow> Tetris \<Rightarrow> (error + Tetris) option" where
  "hard_drop k t =
     (case move_down k t of
        Inl e \<Rightarrow> Some (Inl e)
      | Inr r \<Rightarrow> if fst r then hard_drop k (snd r) else Some (Inr (snd r)))"

declare hard_drop.simps [code]

text \<open>
  \<open>Tetris.rotate_piece\<close>.  The loop over \<open>kick_tests\<close> stores each candidate anchor in the
  piece before it tests it and returns at the first valid one.
\<close>

fun kick_loop :: "Tetris \<Rightarrow> int \<Rightarrow> int \<Rightarrow> (int \<times> int) list \<Rightarrow> error + (bool \<times> Tetris)" where
  "kick_loop t old_x old_y [] = Inr (False, t)"
| "kick_loop t old_x old_y (d # rest) =
     (let t1 = set_y (old_y + snd d) (set_x (old_x + fst d) t) in
      case is_valid_position (board t1) (current_piece t1) of
        Inl e \<Rightarrow> Inl e
      | Inr ok \<Rightarrow> if ok then Inr (True, t1) else kick_loop t1 old_x old_y rest)"

definition kick_tests :: "kind \<Rightarrow> (int \<times> int) list" where
  "kick_tests k =
     (if k = KI then
        [(1, 0), (-1, 0), (2, 0), (-2, 0), (3, 0), (-3, 0),
         (0, -1), (1, -1), (-1, -1)]
      else
        [(1, 0), (-1, 0), (2, 0), (-2, 0),
         (0, -1), (1, -1), (-1, -1)])"

definition rotate_piece :: "Tetris \<Rightarrow> error + Tetris" where
  "rotate_piece t =
     (let old_rotation = rotation (current_piece t);
          old_shape = shape (current_piece t);
          old_x = x (current_piece t);
          old_y = y (current_piece t)
      in case Piece_rotate (current_piece t) of
           Inl e \<Rightarrow> Inl e
         | Inr p1 \<Rightarrow>
             (let t1 = t\<lparr>current_piece := p1\<rparr> in
              case is_valid_position (board t1) (current_piece t1) of
                Inl e \<Rightarrow> Inl e
              | Inr ok \<Rightarrow>
                  if ok then Inr t1
                  else
                    (case kick_loop t1 old_x old_y (kick_tests (type (current_piece t1))) of
                       Inl e \<Rightarrow> Inl e
                     | Inr r \<Rightarrow>
                         if fst r then Inr (snd r)
                         else Inr ((snd r)\<lparr>current_piece := (current_piece (snd r))
                                \<lparr>rotation := old_rotation, shape := old_shape,
                                 x := old_x, y := old_y\<rparr>\<rparr>))))"

text \<open>\<open>Tetris.update\<close>, with the clock reading \<open>current_time\<close> as an argument.\<close>

definition update :: "kind \<Rightarrow> int \<Rightarrow> Tetris \<Rightarrow> error + Tetris" where
  "update k current_time t =
     (if game_over t then Inr t
      else if current_time - last_fall_time t > fall_speed t then
        (case move_down k t of
           Inl e \<Rightarrow> Inl e
         | Inr r \<Rightarrow> Inr ((snd r)\<lparr>last_fall_time := current_time\<rparr>))
      else Inr t)"

definition Tetris_reset :: "kind \<Rightarrow> kind \<Rightarrow> int \<Rightarrow> Tetris \<Rightarrow> Tetris" where
  "Tetris_reset k1 k2 now t =
     t\<lparr>board := Board_reset (board t), current_piece := Piece_init k1,
       next_piece := Piece_init k2, score := 0, lines_cleared := 0,
       game_over := False, last_fall_time := now\<rparr>"

section \<open>Well-formed boards and pieces\<close>

text \<open>The shape of the grid that \<open>Board.__init__\<close> builds: 20 rows of 10 cells.\<close>

definition board_ok :: "Board \<Rightarrow> bool" where
  "board_ok b \<longleftrightarrow>
     width b = 10 \<and> height b = 20 \<and> length (grid b) = 20 \<and>
     list_all (\<lambda>row. length row = 10) (grid b)"

text \<open>A cell that makes a position invalid, in the words of the specification.\<close>

definition cell_rejected :: "Board \<Rightarrow> int \<times> int \<Rightarrow> bool" where
  "cell_rejected b c \<longleftrightarrow>
     fst c < 0 \<or> fst c \<ge> 10 \<or> snd c \<ge> 20 \<or>
     (snd c \<ge> 0 \<and> grid b ! nat (snd c) ! nat (fst c) \<noteq> None)"

text \<open>A row is complete when it contains no empty cell.\<close>

definition complete_row :: "kind option list \<Rightarrow> bool" where
  "complete_row row \<longleftrightarrow> None \<notin> set row"

text \<open>
  A piece as \<open>Piece.__init__\<close> and \<open>Piece.rotate\<close> leave it: the rotation list is the
  catalogue entry of its kind, the index is inside it and the shape is the state at that
  index.
\<close>

definition piece_ok :: "Piece \<Rightarrow> bool" where
  "piece_ok p \<longleftrightarrow>
     rotations p = PIECES (type p) \<and> 0 \<le> rotation p \<and>
     rotation p < int (length (rotations p)) \<and>
     shape p = rotations p ! nat (rotation p)"

text \<open>The number of rotation states of each kind, as the specification lists them.\<close>

fun rotation_count :: "kind \<Rightarrow> nat" where
  "rotation_count KO = 1"
| "rotation_count KI = 2"
| "rotation_count KS = 2"
| "rotation_count KZ = 2"
| "rotation_count KT = 4"
| "rotation_count KJ = 4"
| "rotation_count KL = 4"

text \<open>\<open>n\<close> calls of \<open>Piece.rotate\<close> in a row.\<close>

fun rotate_times :: "nat \<Rightarrow> Piece \<Rightarrow> error + Piece" where
  "rotate_times 0 p = Inr p"
| "rotate_times (Suc n) p =
     (case Piece_rotate p of Inl e \<Rightarrow> Inl e | Inr p' \<Rightarrow> rotate_times n p')"

text \<open>The wall-kick offsets, as the specification lists them.\<close>

definition spec_kick_offsets :: "kind \<Rightarrow> (int \<times> int) list" where
  "spec_kick_offsets k =
     (case k of
        KI \<Rightarrow> [(1, 0), (-1, 0), (2, 0), (-2, 0), (3, 0), (-3, 0), (0, -1), (1, -1), (-1, -1)]
      | _ \<Rightarrow> [(1, 0), (-1, 0), (2, 0), (-2, 0), (0, -1), (1, -1), (-1, -1)])"

text \<open>The active piece with its anchor at a given column and row.\<close>

definition at_anchor :: "int \<Rightarrow> int \<Rightarrow> Piece \<Rightarrow> Piece" where
  "at_anchor ax ay p = p\<lparr>x := ax, y := ay\<rparr>"

text \<open>A board with one complete row between two incomplete ones.\<close>

definition sample_rows :: "kind option list list" where
  "sample_rows =
     replicate 17 (replicate 10 None) @
     [Some KT # replicate 9 None,
      replicate 10 (Some KI),
      replicate 9 None @ [Some KL]]"

definition sample_board :: Board where
  "sample_board = \<lparr>width = 10, height = 20, grid = sample_rows\<rparr>"

text \<open>
  An engine state in which the bottom row lacks only its first cell and a vertical
  \<open>I\<close> piece stands in that column on the floor.
\<close>

definition gap_state :: Tetris where
  "gap_state =
     \<lparr>board = \<lparr>width = 10, height = 20,
               grid = replicate 19 (replicate 10 None) @ [None # replicate 9 (Some KI)]\<rparr>,
      current_piece = (Piece_init KI)\<lparr>rotation := 1, shape := PIECES KI ! 1, x := 0, y := 16\<rparr>,
      next_piece = Piece_init KO, score = 0, lines_cleared = 0, game_over = False,
      last_fall_time = 0, fall_speed = FALL_SPEED\<rparr>"

text \<open>
  An engine state in which no rotation of the active piece fits: a horizontal \<open>I\<close> piece
  in the top row of a board whose rows below are full except for the last column.
\<close>

definition stuck_state :: Tetris where
  "stuck_state =
     \<lparr>board = \<lparr>width = 10, height = 20,
               grid = replicate 10 None # replicate 19 (replicate 9 (Some KO) @ [None])\<rparr>,
      current_piece = Piece_init KI,
      next_piece = Piece_init KO, score = 0, lines_cleared = 0, game_over = False,
      last_fall_time = 0, fall_speed = FALL_SPEED\<rparr>"

text \<open>
  An engine state in which a vertical \<open>I\<close> piece stands against the right wall of an
  empty board: its rotation fits only after the kick \<open>(-3, 0)\<close>.
\<close>

definition wall_state :: Tetris where
  "wall_state =
     \<lparr>board = Board_init,
      current_piece = (Piece_init KI)\<lparr>rotation := 1, shape := PIECES KI ! 1, x := 9, y := 5\<rparr>,
      next_piece = Piece_init KO, score = 0, lines_cleared = 0, game_over = False,
      last_fall_time = 0, fall_speed = FALL_SPEED\<rparr>"

section \<open>The key handler of the main loop\<close>

text \<open>
  The \<open>KEYDOWN\<close> branch of \<open>main\<close> for \<open>state == STATE_PLAYING\<close>.  The keys that the branch
  tells apart are constructors; \<open>K_OTHER\<close> is any other key.  \<open>k1\<close>, \<open>k2\<close> are the kinds that
  \<open>random.choice\<close> draws and \<open>now\<close> is the clock, as for the engine.
\<close>

datatype key = K_LEFT | K_RIGHT | K_DOWN | K_UP | K_SPACE | K_ESCAPE | K_r | K_OTHER

datatype ui_state = STATE_MENU | STATE_PLAYING | STATE_CONTROLS

definition keydown_playing ::
    "key \<Rightarrow> kind \<Rightarrow> kind \<Rightarrow> int \<Rightarrow> Tetris \<Rightarrow> (error + ui_state \<times> Tetris) option" where
  "keydown_playing event_key k1 k2 now tetris =
     (if \<not> game_over tetris then
        (if event_key = K_LEFT then
           (case move_left tetris of
              Inl e \<Rightarrow> Some (Inl e) | Inr t' \<Rightarrow> Some (Inr (STATE_PLAYING, t')))
         else if event_key = K_RIGHT then
           (case move_right tetris of
              Inl e \<Rightarrow> Some (Inl e) | Inr t' \<Rightarrow> Some (Inr (STATE_PLAYING, t')))
         else if event_key = K_DOWN then
           (case move_down k1 tetris of
              Inl e \<Rightarrow> Some (Inl e) | Inr r \<Rightarrow> Some (Inr (STATE_PLAYING, snd r)))
         else if event_key = K_UP then
           (case rotate_piece tetris of
              Inl e \<Rightarrow> Some (Inl e) | Inr t' \<Rightarrow> Some (Inr (STATE_PLAYING, t')))
         else if event_key = K_SPACE then
           (case hard_drop k1 tetris of
              None \<Rightarrow> None
            | Some (Inl e) \<Rightarrow> Some (Inl e)
            | Some (Inr t') \<Rightarrow> Some (Inr (STATE_PLAYING, t')))
         else if event_key = K_ESCAPE then Some (Inr (STATE_MENU, tetris))
         else Some (Inr (STATE_PLAYING, tetris)))
      else
        (if event_key = K_r then Some (Inr (STATE_PLAYING, Tetris_reset k1 k2 now tetris))
         else if event_key = K_ESCAPE then Some (Inr (STATE_MENU, tetris))
         else Some (Inr (STATE_PLAYING, tetris))))"

text \<open>A run of key presses while the screen stays in \<open>STATE_PLAYING\<close>, one draw per key.\<close>

fun press_keys :: "(key \<times> kind) list \<Rightarrow> Tetris \<Rightarrow> (error + ui_state \<times> Tetris) option" where
  "press_keys [] t = Some (Inr (STATE_PLAYING, t))"
| "press_keys (kd # rest) t =
     (case keydown_playing (fst kd) (snd kd) (snd kd) 0 t of
        None \<Rightarrow> None
      | Some (Inl e) \<Rightarrow> Some (Inl e)
      | Some (Inr r) \<Rightarrow>
          if fst r = STATE_PLAYING then press_keys rest (snd r) else Some (Inr r))"

text \<open>
  The engine state after five \<open>I\<close> pieces were turned upright, moved two columns to the
  right and dropped on an empty board: column 5 is full and the game is over.
\<close>

definition topout_state :: Tetris where
  "topout_state =
     \<lparr>board = \<lparr>width = 10, height = 20,
               grid = replicate 20 (replicate 5 None @ [Some KI] @ replicate 4 None)\<rparr>,
      current_piece = (Piece_init KI)\<lparr>rotation := 1, shape := PIECES KI ! 1, x := 5, y := 0\<rparr>,
      next_piece = Piece_init KI, score = 0, lines_cleared = 0, game_over = True,
      last_fall_time = 0, fall_speed = FALL_SPEED\<rparr>"

definition topout_keys :: "(key \<times> kind) list" where
  "topout_keys =
     concat (replicate 5 [(K_UP, KI), (K_RIGHT, KI), (K_RIGHT, KI), (K_SPACE, KI)])"

text \<open>Consecutive calls of \<open>move_down\<close>, one draw per call, with the flags they return.\<close>

fun move_down_seq :: "kind list \<Rightarrow> Tetris \<Rightarrow> error + (bool list \<times> Tetris)" where
  "move_down_seq [] t = Inr ([], t)"
| "move_down_seq (k # ks) t =
     (case move_down k t of
        Inl e \<Rightarrow> Inl e
      | Inr r \<Rightarrow>
          (case move_down_seq ks (snd r) of
             Inl e \<Rightarrow> Inl e
           | Inr rs \<Rightarrow> Inr (fst r # fst rs, snd rs)))"

text \<open>The grid with kind \<open>O\<close> in the bottom two rows at columns 3 and 4, empty elsewhere.\<close>

definition o_locked_grid :: "kind option list list" where
  "o_locked_grid =
     replicate 18 (replicate 10 None) @
     replicate 2 (replicate 3 None @ [Some KO, Some KO] @ replicate 5 None)"

text \<open>
  The boards that the operations of class \<open>Board\<close> can produce: the fresh board, a lock of
  a piece that is at a valid position, a line clear, a reset.
\<close>

inductive reachable_board :: "Board \<Rightarrow> bool" where
  fresh: "reachable_board Board_init"
| locked: "reachable_board b \<Longrightarrow> is_valid_position b p = Inr True \<Longrightarrow>
     Board_lock_piece b p = Inr b' \<Longrightarrow> reachable_board b'"
| cleared: "reachable_board b \<Longrightarrow> reachable_board (fst (clear_lines b))"
| reset: "reachable_board b \<Longrightarrow> reachable_board (Board_reset b)"

text \<open>
  An engine state with a horizontal \<open>I\<close> piece two rows above the top of an empty board.
\<close>

definition high_state :: Tetris where
  "high_state =
     \<lparr>board = Board_init, current_piece = (Piece_init KI)\<lparr>y := - 2\<rparr>,
      next_piece = Piece_init KO, score = 0, lines_cleared = 0, game_over = False,
      last_fall_time = 0, fall_speed = FALL_SPEED\<rparr>"

section \<open>Engine states that a game can reach\<close>

text \<open>
  The engine states of a running program: \<open>Tetris()\<close>, and from there the key presses
  and the clock ticks that \<open>main\<close> passes to the engine.
\<close>

inductive reachable :: "Tetris \<Rightarrow> bool" where
  start: "reachable (Tetris_init k1 k2 now)"
| keydown: "reachable t \<Longrightarrow> keydown_playing event_key k1 k2 now t = Some (Inr (ui, t')) \<Longrightarrow>
     reachable t'"
| tick: "reachable t \<Longrightarrow> update k now t = Inr t' \<Longrightarrow> reachable t'"

text \<open>The top row of the grid is empty.\<close>

definition row0_empty :: "Board \<Rightarrow> bool" where
  "row0_empty b \<longleftrightarrow> list_all (\<lambda>cell. cell = None) (grid b ! 0)"

text \<open>Column \<open>c\<close> holds a block in one of the rows \<open>0 .. n - 1\<close>.\<close>

definition col_blocked :: "Board \<Rightarrow> int \<Rightarrow> nat \<Rightarrow> bool" where
  "col_blocked b c n \<longleftrightarrow> list_ex (\<lambda>r. grid b ! r ! nat c \<noteq> None) [0..<n]"

text \<open>
  What a board looks like after an \<open>I\<close> piece lying in row 0 at column \<open>xa\<close> was kicked
  upwards: every column within three of \<open>xa\<close> holds a block in rows 0 to 3, and a column
  next to \<open>xa\<close> is free in rows 0 to 2.
\<close>

definition kicked_once :: "Board \<Rightarrow> bool" where
  "kicked_once b \<longleftrightarrow>
     (\<exists>xa \<in> {0..6}.
        (\<forall>c \<in> {0..9}. \<bar>c - xa\<bar> \<le> 3 \<longrightarrow> col_blocked b c 4) \<and>
        (\<exists>ca \<in> {0..9}. \<bar>ca - xa\<bar> \<le> 1 \<and> \<not> col_blocked b ca 3))"

text \<open>Every column from 0 to 6 holds a block in rows 0 to 3.\<close>

definition towers :: "Board \<Rightarrow> bool" where
  "towers b \<longleftrightarrow> (\<forall>c \<in> {0..6}. col_blocked b c 4)"

text \<open>
  How far above the board the anchor of the active piece can be: not at all, or at most
  two rows for the kinds other than \<open>I\<close>, or at most three rows for an \<open>I\<close> piece on a
  board that shows the traces of the kicks that brought it there.
\<close>

definition height_inv :: "Tetris \<Rightarrow> bool" where
  "height_inv t \<longleftrightarrow>
     0 \<le> y (current_piece t)
     \<or> (type (current_piece t) \<noteq> KI \<and> - 2 \<le> y (current_piece t))
     \<or> (type (current_piece t) = KI \<and> - 3 \<le> y (current_piece t) \<and> kicked_once (board t)
         \<and> (y (current_piece t) \<le> - 2 \<longrightarrow> towers (board t)))"

definition engine_inv :: "Tetris \<Rightarrow> bool" where
  "engine_inv t \<longleftrightarrow>
     board_ok (board t) \<and> piece_ok (current_piece t)
     \<and> next_piece t = Piece_init (type (next_piece t))
     \<and> (\<not> game_over t \<longrightarrow>
          row0_empty (board t)
          \<and> is_valid_position (board t) (current_piece t) = Inr True
          \<and> height_inv t)"

text \<open>
  What the proofs use of a catalogue matrix: it is a rectangle with a block in its first
  column, in its last column and in its last row; the matrices of \<open>I\<close> are 4 by 1 and
  1 by 4, those of the other kinds have two or three rows and columns.
\<close>

definition shape_width :: "int list list \<Rightarrow> nat" where
  "shape_width sh = length (hd sh)"

definition shape_tight :: "int list list \<Rightarrow> bool" where
  "shape_tight sh \<longleftrightarrow>
     1 \<le> length sh \<and> 1 \<le> shape_width sh
     \<and> list_all (\<lambda>row. length row = shape_width sh) sh
     \<and> list_ex (\<lambda>row. row ! 0 \<noteq> 0) sh
     \<and> list_ex (\<lambda>row. row ! (shape_width sh - 1) \<noteq> 0) sh
     \<and> list_ex (\<lambda>v. v \<noteq> 0) (sh ! (length sh - 1))"

definition shape_dims :: "kind \<Rightarrow> int list list \<Rightarrow> bool" where
  "shape_dims k sh \<longleftrightarrow>
     (if k = KI then (shape_width sh = 4 \<and> length sh = 1) \<or> (shape_width sh = 1 \<and> length sh = 4)
      else (shape_width sh = 2 \<or> shape_width sh = 3) \<and> (length sh = 2 \<or> length sh = 3))"

text \<open>The kick offsets that keep the row, and those that go one row up.\<close>

definition side_kicks :: "kind \<Rightarrow> (int \<times> int) list" where
  "side_kicks k =
     (if k = KI then [(1, 0), (-1, 0), (2, 0), (-2, 0), (3, 0), (-3, 0)]
      else [(1, 0), (-1, 0), (2, 0), (-2, 0)])"

definition up_kicks :: "(int \<times> int) list" where
  "up_kicks = [(0, -1), (1, -1), (-1, -1)]"

text \<open>Once the game is over the active piece is not at a valid position.\<close>

definition over_inv :: "Tetris \<Rightarrow> bool" where
  "over_inv t \<longleftrightarrow>
     (game_over t \<longrightarrow> is_valid_position (board t) (current_piece t) = Inr False)"

section \<open>Indexing inside the bounds\<close>

lemma norm_index_in_range: "0 \<le> i \<Longrightarrow> i < int (length xs) \<Longrightarrow> norm_index xs i = Inr (nat i)"
  by (simp add: norm_index_def)

lemma getitem_in_range: "0 \<le> i \<Longrightarrow> i < int (length xs) \<Longrightarrow> getitem xs i = Inr (xs ! nat i)"
  by (simp add: getitem_def norm_index_in_range)

lemma setitem_in_range:
  "0 \<le> i \<Longrightarrow> i < int (length xs) \<Longrightarrow> setitem xs i v = Inr (xs[nat i := v])"
  by (simp add: setitem_def norm_index_in_range)

lemma board_ok_row: "board_ok b \<Longrightarrow> j < 20 \<Longrightarrow> length (grid b ! j) = 10"
  by (simp add: board_ok_def list_all_length)

lemma board_ok_init: "board_ok Board_init"
  by (simp add: board_ok_def Board_init_def BOARD_WIDTH_def BOARD_HEIGHT_def list_all_length)

section \<open>Validity of a position\<close>

lemma valid_cells_char:
  "board_ok b \<Longrightarrow> valid_cells b ps = Inr (\<not> list_ex (cell_rejected b) ps)"
proof (induction ps)
  case Nil
  then show ?case by simp
next
  case (Cons c ps)
  have wh: "width b = 10" "height b = 20" "length (grid b) = 20"
    using Cons.prems by (simp_all add: board_ok_def)
  show ?case
  proof (cases "fst c < 0 \<or> fst c \<ge> 10 \<or> snd c \<ge> 20")
    case True
    then show ?thesis using wh by (auto simp: cell_rejected_def)
  next
    case False
    note inside = this
    show ?thesis
    proof (cases "snd c \<ge> 0")
      case True
      then have "length (grid b ! nat (snd c)) = 10"
        using inside Cons.prems by (intro board_ok_row) auto
      then show ?thesis
        using True inside wh Cons.IH [OF Cons.prems]
        by (simp add: getitem_in_range cell_rejected_def)
    next
      case False
      then show ?thesis
        using inside wh Cons.IH [OF Cons.prems] by (simp add: cell_rejected_def)
    qed
  qed
qed

lemma is_valid_position_char:
  "board_ok b \<Longrightarrow> is_valid_position b p = Inr (\<not> list_ex (cell_rejected b) (get_positions p))"
  by (simp add: is_valid_position_def valid_cells_char)

lemma valid_cells_above:
  "\<forall>c \<in> set ps. snd c < 0 \<Longrightarrow> valid_cells (b\<lparr>grid := g\<rparr>) ps = valid_cells b ps"
  by (induction ps) auto

text \<open>
  Claim C1.  On a board of the regular shape, \<open>is_valid_position\<close> never raises and returns
  \<open>False\<close> exactly when some occupied cell of the piece has column \<open>< 0\<close>, column \<open>\<ge> 10\<close>,
  row \<open>\<ge> 20\<close>, or row \<open>\<ge> 0\<close> and a grid cell that is not empty.  A piece whose cells all have
  row \<open>< 0\<close> gets the same answer on any grid whatever: those cells are not looked up.
\<close>

theorem is_valid_position_iff:
  assumes "board_ok b"
  shows "(is_valid_position b p = Inr False \<longleftrightarrow>
            (\<exists>c \<in> set (get_positions p).
               fst c < 0 \<or> fst c \<ge> 10 \<or> snd c \<ge> 20 \<or>
               (snd c \<ge> 0 \<and> grid b ! nat (snd c) ! nat (fst c) \<noteq> None)))
       \<and> (is_valid_position b p = Inr False \<or> is_valid_position b p = Inr True)
       \<and> (\<forall>g. (\<forall>c \<in> set (get_positions p). snd c < 0) \<longrightarrow>
               is_valid_position (b\<lparr>grid := g\<rparr>) p = is_valid_position b p)"
proof -
  have "is_valid_position b p = Inr (\<not> list_ex (cell_rejected b) (get_positions p))"
    using assms by (rule is_valid_position_char)
  then have "is_valid_position b p = Inr False \<longleftrightarrow>
      (\<exists>c \<in> set (get_positions p). cell_rejected b c)"
    and "is_valid_position b p = Inr False \<or> is_valid_position b p = Inr True"
    by (auto simp: list_ex_iff)
  then show ?thesis
    by (simp add: cell_rejected_def is_valid_position_def valid_cells_above)
qed

theorem is_valid_position_iff_witness:
  "board_ok Board_init
   \<and> is_valid_position Board_init ((Piece_init KT)\<lparr>x := 8\<rparr>) = Inr False
   \<and> list_ex (\<lambda>c. fst c \<ge> 10) (get_positions ((Piece_init KT)\<lparr>x := 8\<rparr>))"
proof -
  have ex: "list_ex (\<lambda>c. fst c \<ge> 10) (get_positions ((Piece_init KT)\<lparr>x := 8\<rparr>))"
    by code_simp
  then have "\<exists>c \<in> set (get_positions ((Piece_init KT)\<lparr>x := 8\<rparr>)).
               fst c < 0 \<or> fst c \<ge> 10 \<or> snd c \<ge> 20 \<or>
               (snd c \<ge> 0 \<and> grid Board_init ! nat (snd c) ! nat (fst c) \<noteq> None)"
    unfolding list_ex_iff by blast
  then have "is_valid_position Board_init ((Piece_init KT)\<lparr>x := 8\<rparr>) = Inr False"
    using is_valid_position_iff [OF board_ok_init, of "(Piece_init KT)\<lparr>x := 8\<rparr>"] by blast
  then show ?thesis using ex board_ok_init by simp
qed

section \<open>Clearing lines\<close>

lemma scan_rows_filter:
  "scan_rows rows n acc =
     (n + int (length (filter complete_row rows)), acc @ filter (\<lambda>row. \<not> complete_row row) rows)"
  by (induction rows arbitrary: n acc) (simp_all add: complete_row_def)

lemma insert_empty_replicate:
  "insert_empty n w g = replicate n (replicate (nat w) None) @ g"
  by (induction n arbitrary: g) (simp_all add: replicate_app_Cons_same)

lemma clear_lines_char:
  "clear_lines b =
     (b\<lparr>grid := replicate (length (filter complete_row (grid b))) (replicate (nat (width b)) None)
               @ filter (\<lambda>row. \<not> complete_row row) (grid b)\<rparr>,
      int (length (filter complete_row (grid b))))"
  by (simp add: clear_lines_def scan_rows_filter insert_empty_replicate)

lemma length_filter_split:
  "length (filter P xs) + length (filter (\<lambda>v. \<not> P v) xs) = length xs"
  by (induction xs) simp_all

text \<open>
  Claim C2.  On a board of 20 rows of which exactly \<open>k\<close> are complete, \<open>clear_lines\<close>
  returns \<open>k\<close>; the new grid is \<open>k\<close> rows of 10 empty cells followed by the incomplete rows
  of the old grid in their old order, 20 rows again; width and height are untouched.
\<close>

theorem clear_lines_removes_complete_rows:
  assumes "board_ok b"
    and "length (filter complete_row (grid b)) = k"
  shows "snd (clear_lines b) = int k
       \<and> grid (fst (clear_lines b)) =
           replicate k (replicate 10 None) @ filter (\<lambda>row. \<not> complete_row row) (grid b)
       \<and> length (filter (\<lambda>row. \<not> complete_row row) (grid b)) = 20 - k
       \<and> length (grid (fst (clear_lines b))) = 20
       \<and> width (fst (clear_lines b)) = width b
       \<and> height (fst (clear_lines b)) = height b"
proof -
  have w: "width b = 10" and len: "length (grid b) = 20"
    using assms(1) by (simp_all add: board_ok_def)
  have rest: "length (filter (\<lambda>row. \<not> complete_row row) (grid b)) = 20 - k"
    using length_filter_split [of complete_row "grid b"] assms(2) len by simp
  have "k \<le> 20"
    using length_filter_le [of complete_row "grid b"] assms(2) len by simp
  then show ?thesis
    using rest w assms(2) by (simp add: clear_lines_char)
qed

theorem clear_lines_removes_complete_rows_witness:
  "board_ok sample_board
   \<and> length (filter complete_row (grid sample_board)) = 1
   \<and> snd (clear_lines sample_board) = 1
   \<and> grid (fst (clear_lines sample_board)) =
       replicate 18 (replicate 10 None) @ [Some KT # replicate 9 None, replicate 9 None @ [Some KL]]"
proof -
  have ok: "board_ok sample_board"
    by code_simp
  have one: "length (filter complete_row (grid sample_board)) = 1"
    by code_simp
  have rest: "replicate 1 (replicate 10 None)
        @ filter (\<lambda>row. \<not> complete_row row) (grid sample_board) =
      replicate 18 (replicate 10 None) @ [Some KT # replicate 9 None, replicate 9 None @ [Some KL]]"
    by code_simp
  show ?thesis
    using clear_lines_removes_complete_rows [OF ok one] ok one rest by simp
qed

section \<open>Scoring\<close>

text \<open>
  Claim C3.  In a lock-and-spawn in which \<open>clear_lines\<close> returns \<open>n\<close>: for \<open>n > 0\<close> the score
  grows by \<open>n\<^sup>2 * 100\<close> and the line counter by \<open>n\<close>; for \<open>n = 0\<close> both stay.
\<close>

theorem lock_piece_scoring:
  assumes "Board_lock_piece (board t) (current_piece t) = Inr b1"
    and "snd (clear_lines b1) = n"
    and "Tetris_lock_piece k t = Inr t'"
  shows "(n > 0 \<longrightarrow> score t' = score t + n\<^sup>2 * 100 \<and> lines_cleared t' = lines_cleared t + n)
       \<and> (n = 0 \<longrightarrow> score t' = score t \<and> lines_cleared t' = lines_cleared t)
       \<and> (n = 1 \<longrightarrow> score t' = score t + 100)
       \<and> (n = 2 \<longrightarrow> score t' = score t + 400)
       \<and> (n = 3 \<longrightarrow> score t' = score t + 900)
       \<and> (n = 4 \<longrightarrow> score t' = score t + 1600)"
proof -
  have core: "score t' = (if n > 0 then score t + n * 100 * n else score t)
      \<and> lines_cleared t' = (if n > 0 then lines_cleared t + n else lines_cleared t)"
    using assms
    by (auto simp: Tetris_lock_piece_def Let_def split: sum.splits prod.splits if_splits)
  have "n * 100 * n = n\<^sup>2 * 100"
    by (simp add: power2_eq_square)
  then show ?thesis using core by auto
qed

theorem lock_piece_scoring_witness:
  "\<not> isl (Board_lock_piece (board gap_state) (current_piece gap_state))
   \<and> snd (clear_lines (projr (Board_lock_piece (board gap_state) (current_piece gap_state)))) = 1
   \<and> \<not> isl (Tetris_lock_piece KT gap_state)
   \<and> score (projr (Tetris_lock_piece KT gap_state)) = 100
   \<and> lines_cleared (projr (Tetris_lock_piece KT gap_state)) = 1"
proof -
  have b: "\<not> isl (Board_lock_piece (board gap_state) (current_piece gap_state))"
    by code_simp
  have n: "snd (clear_lines (projr (Board_lock_piece (board gap_state) (current_piece gap_state)))) = 1"
    by code_simp
  have l: "\<not> isl (Tetris_lock_piece KT gap_state)"
    by code_simp
  have z: "score gap_state = 0" "lines_cleared gap_state = 0"
    by (simp_all add: gap_state_def)
  have b': "Board_lock_piece (board gap_state) (current_piece gap_state) =
      Inr (projr (Board_lock_piece (board gap_state) (current_piece gap_state)))"
    using b by (cases "Board_lock_piece (board gap_state) (current_piece gap_state)") simp_all
  have l': "Tetris_lock_piece KT gap_state = Inr (projr (Tetris_lock_piece KT gap_state))"
    using l by (cases "Tetris_lock_piece KT gap_state") simp_all
  show ?thesis
    using lock_piece_scoring [OF b' n l'] b n l z by simp
qed

section \<open>Rotating a piece\<close>

lemma length_PIECES: "length (PIECES k) = rotation_count k"
  by (cases k) simp_all

lemma Piece_rotate_anchor: "Piece_rotate p = Inr p' \<Longrightarrow> x p' = x p \<and> y p' = y p"
  by (auto simp: Piece_rotate_def Let_def split: if_splits)

lemma Piece_rotate_fields:
  "Piece_rotate p = Inr p' \<Longrightarrow> type p' = type p \<and> rotations p' = rotations p"
  by (auto simp: Piece_rotate_def Let_def split: if_splits)

lemma rotate_times_anchor: "rotate_times n p = Inr p' \<Longrightarrow> x p' = x p \<and> y p' = y p"
proof (induction n arbitrary: p)
  case 0
  then show ?case by simp
next
  case (Suc n)
  then obtain p1 where p1: "Piece_rotate p = Inr p1" and rest: "rotate_times n p1 = Inr p'"
    by (auto split: sum.splits)
  from Suc.IH [OF rest] Piece_rotate_anchor [OF p1] show ?case by simp
qed

lemma rotate_times_Suc:
  "rotations p \<noteq> [] \<Longrightarrow>
   rotate_times (Suc n) p =
     Inr (p\<lparr>rotation := (rotation p + 1 + int n) mod int (length (rotations p)),
            shape := rotations p ! nat ((rotation p + 1 + int n) mod int (length (rotations p)))\<rparr>)"
proof (induction n arbitrary: p)
  case 0
  then show ?case by (simp add: Piece_rotate_def Let_def)
next
  case (Suc n)
  let ?len = "int (length (rotations p))"
  let ?p1 = "p\<lparr>rotation := (rotation p + 1) mod ?len,
               shape := rotations p ! nat ((rotation p + 1) mod ?len)\<rparr>"
  have step: "Piece_rotate p = Inr ?p1"
    using Suc.prems by (simp add: Piece_rotate_def Let_def)
  have "((rotation p + 1) mod ?len + (1 + int n)) mod ?len
      = ((rotation p + 1) + (1 + int n)) mod ?len"
    by (rule mod_add_left_eq)
  then have idx: "((rotation p + 1) mod ?len + 1 + int n) mod ?len
      = (rotation p + 1 + int (Suc n)) mod ?len"
    by (simp add: add.assoc)
  have "rotate_times (Suc (Suc n)) p = rotate_times (Suc n) ?p1"
    using step by simp
  also have "\<dots> = Inr (?p1\<lparr>rotation := (rotation ?p1 + 1 + int n) mod int (length (rotations ?p1)),
      shape := rotations ?p1 ! nat ((rotation ?p1 + 1 + int n) mod int (length (rotations ?p1)))\<rparr>)"
    using Suc.prems by (intro Suc.IH) simp
  finally show ?case
    using idx by simp
qed

text \<open>
  Claim C8.  For a piece of the catalogue, as many calls of \<open>rotate\<close> as its kind has
  rotation states (1 for O, 2 for I, S, Z, 4 for T, J, L) give back the very same piece:
  rotation index, shape and all other fields.  No number of calls changes the anchor.
\<close>

theorem rotate_full_cycle:
  assumes "piece_ok p"
  shows "length (rotations p) = rotation_count (type p)
       \<and> rotate_times (rotation_count (type p)) p = Inr p
       \<and> (\<forall>n. \<exists>p'. rotate_times n p = Inr p' \<and> x p' = x p \<and> y p' = y p)"
proof -
  let ?len = "int (length (rotations p))"
  have rots: "rotations p = PIECES (type p)"
    and lo: "0 \<le> rotation p" and hi: "rotation p < ?len"
    and sh: "shape p = rotations p ! nat (rotation p)"
    using assms unfolding piece_ok_def by blast+
  have len: "length (rotations p) = rotation_count (type p)"
    using rots by (simp add: length_PIECES)
  have ne: "rotations p \<noteq> []"
    using hi lo by auto
  obtain m where m: "rotation_count (type p) = Suc m"
    using len ne by (cases "rotation_count (type p)") auto
  have "?len = 1 + int m"
    using len m by simp
  then have "(rotation p + 1 + int m) mod ?len = (rotation p + ?len) mod ?len"
    by (simp add: add.assoc)
  also have "\<dots> = rotation p"
    using lo hi by simp
  finally have "(rotation p + 1 + int m) mod ?len = rotation p" .
  then have cyc: "rotate_times (rotation_count (type p)) p = Inr p"
    using rotate_times_Suc [OF ne, of m] m sh by simp
  have "\<exists>p'. rotate_times n p = Inr p' \<and> x p' = x p \<and> y p' = y p" for n
  proof (cases n)
    case 0
    then show ?thesis by simp
  next
    case (Suc k)
    then obtain p' where "rotate_times n p = Inr p'"
      using rotate_times_Suc [OF ne, of k] by simp
    then show ?thesis
      using rotate_times_anchor by blast
  qed
  then show ?thesis using len cyc by blast
qed

theorem rotate_full_cycle_witness:
  "piece_ok ((Piece_init KT)\<lparr>rotation := 2, shape := PIECES KT ! 2\<rparr>)
   \<and> rotate_times 4 ((Piece_init KT)\<lparr>rotation := 2, shape := PIECES KT ! 2\<rparr>)
       = Inr ((Piece_init KT)\<lparr>rotation := 2, shape := PIECES KT ! 2\<rparr>)
   \<and> rotate_times 1 (Piece_init KO) = Inr (Piece_init KO)
   \<and> rotate_times 2 (Piece_init KS) = Inr (Piece_init KS)"
proof -
  have ok: "piece_ok ((Piece_init KT)\<lparr>rotation := 2, shape := PIECES KT ! 2\<rparr>)"
    "piece_ok (Piece_init KO)" "piece_ok (Piece_init KS)"
    by (simp_all add: piece_ok_def Piece_init_def)
  have ty: "type ((Piece_init KT)\<lparr>rotation := 2, shape := PIECES KT ! 2\<rparr>) = KT"
    "type (Piece_init KO) = KO" "type (Piece_init KS) = KS"
    by (simp_all add: Piece_init_def)
  show ?thesis
    using rotate_full_cycle [OF ok(1)] rotate_full_cycle [OF ok(2)] rotate_full_cycle [OF ok(3)]
      ok(1) ty
    by simp
qed

section \<open>Rotation with wall kicks\<close>

lemma at_anchor_set:
  "current_piece (set_y ay (set_x ax t)) = at_anchor ax ay (current_piece t)"
  "board (set_y ay (set_x ax t)) = board t"
  "set_y ay (set_x ax t) = t\<lparr>current_piece := at_anchor ax ay (current_piece t)\<rparr>"
  by (simp_all add: set_x_def set_y_def at_anchor_def)

lemma at_anchor_twice [simp]: "at_anchor ax ay (at_anchor cx cy p) = at_anchor ax ay p"
  by (simp add: at_anchor_def)

text \<open>When every candidate is rejected the loop ends with the last candidate stored.\<close>

lemma kick_loop_all_rejected:
  assumes "\<forall>d \<in> set ds.
      is_valid_position (board t) (at_anchor (ox + fst d) (oy + snd d) (current_piece t)) = Inr False"
  shows "\<exists>ax ay. kick_loop t ox oy ds
      = Inr (False, t\<lparr>current_piece := at_anchor ax ay (current_piece t)\<rparr>)"
  using assms
proof (induction ds arbitrary: t)
  case Nil
  have "t = t\<lparr>current_piece := at_anchor (x (current_piece t)) (y (current_piece t)) (current_piece t)\<rparr>"
    by (simp add: at_anchor_def)
  then show ?case by (metis kick_loop.simps(1))
next
  case (Cons d ds)
  let ?t1 = "t\<lparr>current_piece := at_anchor (ox + fst d) (oy + snd d) (current_piece t)\<rparr>"
  have rej: "is_valid_position (board ?t1) (current_piece ?t1) = Inr False"
    using Cons.prems by simp
  have "\<forall>e \<in> set ds.
      is_valid_position (board ?t1) (at_anchor (ox + fst e) (oy + snd e) (current_piece ?t1)) = Inr False"
    using Cons.prems by simp
  from Cons.IH [OF this] obtain ax ay where
    "kick_loop ?t1 ox oy ds = Inr (False, ?t1\<lparr>current_piece := at_anchor ax ay (current_piece ?t1)\<rparr>)"
    by blast
  then have "kick_loop t ox oy (d # ds)
      = Inr (False, t\<lparr>current_piece := at_anchor ax ay (current_piece t)\<rparr>)"
    using rej by (simp add: at_anchor_set Let_def)
  then show ?case by blast
qed

lemma rotate_piece_reverts:
  assumes "Piece_rotate (current_piece t) = Inr p1"
    and "is_valid_position (board t) p1 = Inr False"
    and "\<forall>d \<in> set (kick_tests (type (current_piece t))).
           is_valid_position (board t)
             (p1\<lparr>x := x (current_piece t) + fst d, y := y (current_piece t) + snd d\<rparr>) = Inr False"
  shows "rotate_piece t = Inr t"
proof -
  let ?t1 = "t\<lparr>current_piece := p1\<rparr>"
  let ?ox = "x (current_piece t)" and ?oy = "y (current_piece t)"
  have ty: "type p1 = type (current_piece t)"
    using Piece_rotate_fields [OF assms(1)] by simp
  have "\<forall>d \<in> set (kick_tests (type p1)).
      is_valid_position (board ?t1) (at_anchor (?ox + fst d) (?oy + snd d) (current_piece ?t1))
        = Inr False"
    using assms(3) ty by (simp add: at_anchor_def)
  from kick_loop_all_rejected [OF this] obtain ax ay where
    loop: "kick_loop ?t1 ?ox ?oy (kick_tests (type p1))
      = Inr (False, ?t1\<lparr>current_piece := at_anchor ax ay (current_piece ?t1)\<rparr>)"
    by blast
  have restore: "(at_anchor ax ay p1)\<lparr>rotation := rotation (current_piece t),
      shape := shape (current_piece t), x := ?ox, y := ?oy\<rparr> = current_piece t"
    using assms(1) by (auto simp: Piece_rotate_def Let_def at_anchor_def split: if_splits)
  show ?thesis
    using assms(1,2) loop restore by (simp add: rotate_piece_def Let_def)
qed

text \<open>
  Claim C4.  If the rotated piece is invalid at the old anchor and at every kick offset,
  \<open>rotate_piece\<close> returns the engine state it was given: rotation index, shape, anchor
  and every other field of the engine and the board are the old ones.
\<close>

theorem rotate_piece_atomic:
  assumes "Piece_rotate (current_piece t) = Inr p1"
    and "is_valid_position (board t) p1 = Inr False"
    and "\<forall>d \<in> set (kick_tests (type (current_piece t))).
           is_valid_position (board t)
             (p1\<lparr>x := x (current_piece t) + fst d, y := y (current_piece t) + snd d\<rparr>) = Inr False"
  shows "rotate_piece t = Inr t"
  using assms by (rule rotate_piece_reverts)

theorem rotate_piece_atomic_witness:
  "\<not> isl (Piece_rotate (current_piece stuck_state))
   \<and> is_valid_position (board stuck_state) (projr (Piece_rotate (current_piece stuck_state)))
       = Inr False
   \<and> list_all (\<lambda>d. is_valid_position (board stuck_state)
         ((projr (Piece_rotate (current_piece stuck_state)))
            \<lparr>x := x (current_piece stuck_state) + fst d,
             y := y (current_piece stuck_state) + snd d\<rparr>) = Inr False)
       (kick_tests (type (current_piece stuck_state)))
   \<and> rotate_piece stuck_state = Inr stuck_state"
proof -
  have r: "\<not> isl (Piece_rotate (current_piece stuck_state))"
    by code_simp
  then have r': "Piece_rotate (current_piece stuck_state)
      = Inr (projr (Piece_rotate (current_piece stuck_state)))"
    by (cases "Piece_rotate (current_piece stuck_state)") simp_all
  have v: "is_valid_position (board stuck_state) (projr (Piece_rotate (current_piece stuck_state)))
      = Inr False"
    by code_simp
  have k: "list_all (\<lambda>d. is_valid_position (board stuck_state)
         ((projr (Piece_rotate (current_piece stuck_state)))
            \<lparr>x := x (current_piece stuck_state) + fst d,
             y := y (current_piece stuck_state) + snd d\<rparr>) = Inr False)
       (kick_tests (type (current_piece stuck_state)))"
    by code_simp
  then have k': "\<forall>d \<in> set (kick_tests (type (current_piece stuck_state))).
      is_valid_position (board stuck_state)
         ((projr (Piece_rotate (current_piece stuck_state)))
            \<lparr>x := x (current_piece stuck_state) + fst d,
             y := y (current_piece stuck_state) + snd d\<rparr>) = Inr False"
    by (simp add: list_all_iff)
  show ?thesis
    using rotate_piece_atomic [OF r' v k'] r v k by simp
qed

lemma is_valid_position_bool:
  "board_ok b \<Longrightarrow> is_valid_position b p \<noteq> Inr True \<Longrightarrow> is_valid_position b p = Inr False"
  by (simp add: is_valid_position_char)

lemma kick_loop_first_valid:
  assumes "board_ok (board t)"
    and "find (\<lambda>d. is_valid_position (board t)
            (at_anchor (ox + fst d) (oy + snd d) (current_piece t)) = Inr True) ds = Some d"
  shows "kick_loop t ox oy ds
      = Inr (True, t\<lparr>current_piece := at_anchor (ox + fst d) (oy + snd d) (current_piece t)\<rparr>)"
  using assms
proof (induction ds arbitrary: t)
  case Nil
  then show ?case by simp
next
  case (Cons e ds)
  let ?t1 = "t\<lparr>current_piece := at_anchor (ox + fst e) (oy + snd e) (current_piece t)\<rparr>"
  show ?case
  proof (cases "is_valid_position (board t)
      (at_anchor (ox + fst e) (oy + snd e) (current_piece t)) = Inr True")
    case True
    then have "d = e" using Cons.prems(2) by simp
    then show ?thesis using True by (simp add: at_anchor_set Let_def)
  next
    case False
    then have rej: "is_valid_position (board ?t1) (current_piece ?t1) = Inr False"
      using Cons.prems(1) by (simp add: is_valid_position_bool)
    have "find (\<lambda>d. is_valid_position (board ?t1)
            (at_anchor (ox + fst d) (oy + snd d) (current_piece ?t1)) = Inr True) ds = Some d"
      using Cons.prems(2) False by simp
    moreover have "board_ok (board ?t1)"
      using Cons.prems(1) by simp
    ultimately have "kick_loop ?t1 ox oy ds
        = Inr (True, ?t1\<lparr>current_piece := at_anchor (ox + fst d) (oy + snd d) (current_piece ?t1)\<rparr>)"
      by (rule Cons.IH [rotated])
    then show ?thesis
      using rej by (simp add: at_anchor_set Let_def)
  qed
qed

lemma rotate_piece_char:
  assumes "board_ok (board t)"
    and "Piece_rotate (current_piece t) = Inr p1"
  shows "rotate_piece t =
     Inr (if is_valid_position (board t) p1 = Inr True then t\<lparr>current_piece := p1\<rparr>
          else case find (\<lambda>d. is_valid_position (board t)
                         (at_anchor (x (current_piece t) + fst d) (y (current_piece t) + snd d) p1)
                           = Inr True)
                      (kick_tests (type (current_piece t))) of
                 Some d \<Rightarrow> t\<lparr>current_piece :=
                     at_anchor (x (current_piece t) + fst d) (y (current_piece t) + snd d) p1\<rparr>
               | None \<Rightarrow> t)"
proof (cases "is_valid_position (board t) p1 = Inr True")
  case True
  then show ?thesis using assms(2) by (simp add: rotate_piece_def Let_def)
next
  case False
  let ?ox = "x (current_piece t)" and ?oy = "y (current_piece t)"
  let ?P = "\<lambda>d. is_valid_position (board t) (at_anchor (?ox + fst d) (?oy + snd d) p1) = Inr True"
  have rej: "is_valid_position (board t) p1 = Inr False"
    using False assms(1) by (simp add: is_valid_position_bool)
  have ty: "type p1 = type (current_piece t)"
    using Piece_rotate_fields [OF assms(2)] by simp
  show ?thesis
  proof (cases "find ?P (kick_tests (type (current_piece t)))")
    case None
    then have "\<forall>d \<in> set (kick_tests (type (current_piece t))). \<not> ?P d"
      by (simp add: find_None_iff)
    then have "\<forall>d \<in> set (kick_tests (type (current_piece t))).
        is_valid_position (board t) (p1\<lparr>x := ?ox + fst d, y := ?oy + snd d\<rparr>) = Inr False"
      using assms(1) by (simp add: is_valid_position_bool at_anchor_def)
    from rotate_piece_reverts [OF assms(2) rej this] show ?thesis
      using None False by simp
  next
    case (Some d)
    let ?t1 = "t\<lparr>current_piece := p1\<rparr>"
    have "kick_loop ?t1 ?ox ?oy (kick_tests (type (current_piece t)))
        = Inr (True, ?t1\<lparr>current_piece := at_anchor (?ox + fst d) (?oy + snd d) (current_piece ?t1)\<rparr>)"
      using assms(1) Some by (intro kick_loop_first_valid) simp_all
    then show ?thesis
      using assms(2) rej Some False ty by (simp add: rotate_piece_def Let_def)
  qed
qed

lemma kick_tests_spec: "kick_tests k = spec_kick_offsets k"
  by (cases k) (simp_all add: kick_tests_def spec_kick_offsets_def)

text \<open>
  Claim C5.  \<open>rotate_piece\<close> keeps the rotated piece at the old anchor when that position
  is valid; otherwise it takes the first offset of the list, in the listed order, for which
  the rotated piece at old anchor plus offset is valid; otherwise it changes nothing.  The
  list is the nine offsets for kind I and the seven offsets for every other kind.
\<close>

theorem rotate_piece_kick_order:
  assumes "board_ok (board t)"
    and "Piece_rotate (current_piece t) = Inr p1"
  shows "rotate_piece t =
     Inr (if is_valid_position (board t) p1 = Inr True then t\<lparr>current_piece := p1\<rparr>
          else case find (\<lambda>d. is_valid_position (board t)
                         (p1\<lparr>x := x (current_piece t) + fst d, y := y (current_piece t) + snd d\<rparr>)
                           = Inr True)
                      (spec_kick_offsets (type (current_piece t))) of
                 Some d \<Rightarrow> t\<lparr>current_piece :=
                     p1\<lparr>x := x (current_piece t) + fst d, y := y (current_piece t) + snd d\<rparr>\<rparr>
               | None \<Rightarrow> t)
     \<and> spec_kick_offsets KI =
         [(1, 0), (-1, 0), (2, 0), (-2, 0), (3, 0), (-3, 0), (0, -1), (1, -1), (-1, -1)]
     \<and> (\<forall>k. k \<noteq> KI \<longrightarrow> spec_kick_offsets k =
         [(1, 0), (-1, 0), (2, 0), (-2, 0), (0, -1), (1, -1), (-1, -1)])"
proof -
  have "\<forall>k. k \<noteq> KI \<longrightarrow> spec_kick_offsets k =
         [(1, 0), (-1, 0), (2, 0), (-2, 0), (0, -1), (1, -1), (-1, -1)]"
  proof (intro allI impI)
    fix k :: kind
    assume "k \<noteq> KI"
    then show "spec_kick_offsets k = [(1, 0), (-1, 0), (2, 0), (-2, 0), (0, -1), (1, -1), (-1, -1)]"
      by (cases k) (simp_all add: spec_kick_offsets_def)
  qed
  moreover have "spec_kick_offsets KI =
         [(1, 0), (-1, 0), (2, 0), (-2, 0), (3, 0), (-3, 0), (0, -1), (1, -1), (-1, -1)]"
    by (simp add: spec_kick_offsets_def)
  ultimately show ?thesis
    using rotate_piece_char [OF assms, unfolded at_anchor_def kick_tests_spec] by simp
qed

theorem rotate_piece_kick_order_witness:
  "board_ok (board wall_state)
   \<and> Piece_rotate (current_piece wall_state) = Inr ((Piece_init KI)\<lparr>x := 9, y := 5\<rparr>)
   \<and> is_valid_position (board wall_state) ((Piece_init KI)\<lparr>x := 9, y := 5\<rparr>) = Inr False
   \<and> rotate_piece wall_state
       = Inr (wall_state\<lparr>current_piece := (Piece_init KI)\<lparr>x := 6, y := 5\<rparr>\<rparr>)"
proof -
  have ok: "board_ok (board wall_state)"
    by (simp add: wall_state_def board_ok_init)
  have r: "Piece_rotate (current_piece wall_state) = Inr ((Piece_init KI)\<lparr>x := 9, y := 5\<rparr>)"
    by (simp add: wall_state_def Piece_rotate_def Piece_init_def)
  have v: "is_valid_position (board wall_state) ((Piece_init KI)\<lparr>x := 9, y := 5\<rparr>) = Inr False"
    by code_simp
  have ty: "type (current_piece wall_state) = KI" "x (current_piece wall_state) = 9"
    "y (current_piece wall_state) = 5"
    by (simp_all add: wall_state_def Piece_init_def)
  have f: "find (\<lambda>d. is_valid_position (board wall_state)
                         ((Piece_init KI)\<lparr>x := 9 + fst d, y := 5 + snd d\<rparr>) = Inr True)
             [(1, 0), (-1, 0), (2, 0), (-2, 0), (3, 0), (-3, 0), (0, -1), (1, -1), (-1, -1)]
           = Some (-3, 0)"
    by code_simp
  show ?thesis
    using rotate_piece_kick_order [OF ok r] ok r v ty f by simp
qed

section \<open>An \<open>O\<close> piece falling on an empty board\<close>

lemma get_positions_O:
  "get_positions ((Piece_init KO)\<lparr>y := j\<rparr>) = [(3, j), (4, j), (3, j + 1), (4, j + 1)]"
  by (simp add: get_positions_def row_positions_def Piece_init_def)

lemma empty_grid_cell:
  "0 \<le> r \<Longrightarrow> r < 20 \<Longrightarrow> c < 10 \<Longrightarrow> grid Board_init ! nat r ! c = None"
  by (simp add: Board_init_def BOARD_WIDTH_def BOARD_HEIGHT_def)

lemma O_valid_on_empty:
  "0 \<le> j \<Longrightarrow> is_valid_position Board_init ((Piece_init KO)\<lparr>y := j\<rparr>) = Inr (j \<le> 18)"
  by (auto simp: is_valid_position_char [OF board_ok_init] get_positions_O cell_rejected_def
      empty_grid_cell)

lemma move_down_O_free:
  assumes "0 \<le> j" and "j \<le> 17"
  shows "move_down k (set_y j (Tetris_init KO nk now))
      = Inr (True, set_y (j + 1) (Tetris_init KO nk now))"
  using assms by (simp add: move_down_def set_y_def Tetris_init_def O_valid_on_empty Let_def)

lemma move_down_seq_O:
  assumes "0 \<le> j" and "j + int (length ks) \<le> 18"
  shows "move_down_seq ks (set_y j (Tetris_init KO nk now))
      = Inr (replicate (length ks) True, set_y (j + int (length ks)) (Tetris_init KO nk now))"
  using assms
proof (induction ks arbitrary: j)
  case Nil
  then show ?case by simp
next
  case (Cons k ks)
  have "move_down k (set_y j (Tetris_init KO nk now))
      = Inr (True, set_y (j + 1) (Tetris_init KO nk now))"
    using Cons.prems by (intro move_down_O_free) simp_all
  moreover have "move_down_seq ks (set_y (j + 1) (Tetris_init KO nk now))
      = Inr (replicate (length ks) True,
             set_y (j + 1 + int (length ks)) (Tetris_init KO nk now))"
    using Cons.prems by (intro Cons.IH) simp_all
  ultimately show ?case by (simp add: algebra_simps)
qed

lemma set_y_init: "set_y 0 (Tetris_init k1 k2 now) = Tetris_init k1 k2 now"
  by (simp add: set_y_def Tetris_init_def Piece_init_def)

lemma lock_O_bottom:
  "Board_lock_piece Board_init ((Piece_init KO)\<lparr>y := 18\<rparr>) = Inr (Board_init\<lparr>grid := o_locked_grid\<rparr>)"
  by code_simp

lemma clear_O_bottom:
  "clear_lines (Board_init\<lparr>grid := o_locked_grid\<rparr>) = (Board_init\<lparr>grid := o_locked_grid\<rparr>, 0)"
  by code_simp

lemma over_O_bottom: "is_game_over (Board_init\<lparr>grid := o_locked_grid\<rparr>) = Inr False"
  by code_simp

lemma spawn_O_bottom:
  "is_valid_position (Board_init\<lparr>grid := o_locked_grid\<rparr>) (Piece_init nk) = Inr True"
  by (cases nk; hypsubst; code_simp)

lemma move_down_O_locks:
  "move_down k (set_y 18 (Tetris_init KO nk now))
     = Inr (False, (Tetris_init KO nk now)
          \<lparr>board := Board_init\<lparr>grid := o_locked_grid\<rparr>,
           current_piece := Piece_init nk, next_piece := Piece_init k\<rparr>)"
  using O_valid_on_empty [of 19]
  by (simp add: move_down_def set_y_def Tetris_init_def Let_def Tetris_lock_piece_def
      lock_O_bottom clear_O_bottom over_O_bottom spawn_O_bottom)

text \<open>
  Claim C7, as the code has it.  From the empty board with an \<open>O\<close> piece at anchor (3, 0),
  the first 18 calls of \<open>move_down\<close> return \<open>True\<close> and bring the anchor to row 18; the 19th
  call returns \<open>False\<close> and locks the piece: kind \<open>O\<close> is written into rows 18 and 19 at
  columns 3 and 4, no line is cleared and the next piece becomes the active one.
\<close>

theorem o_piece_falls_18_rows:
  "move_down_seq (replicate 18 k) (Tetris_init KO nk now)
     = Inr (replicate 18 True, set_y 18 (Tetris_init KO nk now))
   \<and> move_down k (set_y 18 (Tetris_init KO nk now))
     = Inr (False, (Tetris_init KO nk now)
          \<lparr>board := Board_init\<lparr>grid := o_locked_grid\<rparr>,
           current_piece := Piece_init nk, next_piece := Piece_init k\<rparr>)"
proof -
  have "move_down_seq (replicate 18 k) (set_y 0 (Tetris_init KO nk now))
      = Inr (replicate (length (replicate 18 k)) True,
             set_y (0 + int (length (replicate 18 k))) (Tetris_init KO nk now))"
    by (rule move_down_seq_O) simp_all
  then show ?thesis
    by (simp add: set_y_init move_down_O_locks)
qed

text \<open>
  Against claim C7 as stated: of 19 calls from that state the 19th already returns
  \<open>False\<close>, and a 20th call moves the piece that was spawned after the lock.
\<close>

theorem o_piece_19th_call_returns_False:
  "\<not> isl (move_down_seq (replicate 20 KI) (Tetris_init KO KT 0))
   \<and> fst (projr (move_down_seq (replicate 20 KI) (Tetris_init KO KT 0)))
       = replicate 18 True @ [False, True]"
  by code_simp

section \<open>Game over and the movement operations\<close>

lemma move_left_frame:
  "move_left t = Inr t' \<Longrightarrow>
   board t' = board t \<and> score t' = score t \<and> lines_cleared t' = lines_cleared t \<and>
   game_over t' = game_over t \<and> next_piece t' = next_piece t"
  by (auto simp: move_left_def set_x_def Let_def split: sum.splits if_splits)

lemma move_right_frame:
  "move_right t = Inr t' \<Longrightarrow>
   board t' = board t \<and> score t' = score t \<and> lines_cleared t' = lines_cleared t \<and>
   game_over t' = game_over t \<and> next_piece t' = next_piece t"
  by (auto simp: move_right_def set_x_def Let_def split: sum.splits if_splits)

lemma kick_loop_frame:
  "kick_loop t ox oy ds = Inr r \<Longrightarrow>
   board (snd r) = board t \<and> score (snd r) = score t \<and>
   lines_cleared (snd r) = lines_cleared t \<and> game_over (snd r) = game_over t \<and>
   next_piece (snd r) = next_piece t"
proof (induction ds arbitrary: t)
  case Nil
  then show ?case by auto
next
  case (Cons d ds)
  let ?t1 = "set_y (oy + snd d) (set_x (ox + fst d) t)"
  have same: "board ?t1 = board t \<and> score ?t1 = score t \<and> lines_cleared ?t1 = lines_cleared t
      \<and> game_over ?t1 = game_over t \<and> next_piece ?t1 = next_piece t"
    by (simp add: set_x_def set_y_def)
  show ?case
  proof (cases "is_valid_position (board ?t1) (current_piece ?t1) = Inr True")
    case True
    then have "r = (True, ?t1)" using Cons.prems by (simp add: Let_def)
    then show ?thesis using same by simp
  next
    case False
    then have "kick_loop ?t1 ox oy ds = Inr r"
      using Cons.prems by (auto simp: Let_def split: sum.splits if_splits)
    from Cons.IH [OF this] same show ?thesis by simp
  qed
qed

lemma rotate_piece_frame:
  assumes "rotate_piece t = Inr t'"
  shows "board t' = board t \<and> score t' = score t \<and> lines_cleared t' = lines_cleared t \<and>
   game_over t' = game_over t \<and> next_piece t' = next_piece t"
proof -
  obtain p1 where p1: "Piece_rotate (current_piece t) = Inr p1"
    using assms by (auto simp: rotate_piece_def Let_def split: sum.splits)
  let ?t1 = "t\<lparr>current_piece := p1\<rparr>"
  show ?thesis
  proof (cases "is_valid_position (board ?t1) (current_piece ?t1) = Inr True")
    case True
    then have "t' = ?t1" using assms p1 by (simp add: rotate_piece_def Let_def)
    then show ?thesis by simp
  next
    case False
    then obtain r where r: "kick_loop ?t1 (x (current_piece t)) (y (current_piece t))
        (kick_tests (type (current_piece ?t1))) = Inr r"
      using assms p1 by (auto simp: rotate_piece_def Let_def split: sum.splits if_splits)
    have "t' = snd r \<or> t' = (snd r)\<lparr>current_piece := (current_piece (snd r))
        \<lparr>rotation := rotation (current_piece t), shape := shape (current_piece t),
         x := x (current_piece t), y := y (current_piece t)\<rparr>\<rparr>"
      using assms p1 r False
      by (auto simp: rotate_piece_def Let_def split: sum.splits if_splits)
    then show ?thesis using kick_loop_frame [OF r] by auto
  qed
qed


lemma topout_state_reached:
  "press_keys topout_keys (Tetris_init KI KI 0) = Some (Inr (STATE_PLAYING, topout_state))"
  by code_simp



section \<open>The shape of the board\<close>

lemma norm_index_bound: "norm_index xs i = Inr j \<Longrightarrow> j < length xs"
  by (auto simp: norm_index_def split: if_splits)

lemma setitem_length: "setitem xs i v = Inr ys \<Longrightarrow> length ys = length xs"
  by (auto simp: setitem_def split: sum.splits)

lemma lock_cells_shape:
  "lock_cells k g ps = Inr g' \<Longrightarrow> map length g' = map length g"
proof (induction ps arbitrary: g)
  case Nil
  then show ?case by simp
next
  case (Cons c ps)
  show ?case
  proof (cases "snd c \<ge> 0")
    case False
    then show ?thesis using Cons by simp
  next
    case True
    then obtain j row where j: "norm_index g (snd c) = Inr j"
      and row: "setitem (g ! j) (fst c) (Some k) = Inr row"
      and rest: "lock_cells k (g[j := row]) ps = Inr g'"
      using Cons.prems by (auto split: sum.splits)
    have "map length (g[j := row]) = map length g"
      using setitem_length [OF row] norm_index_bound [OF j]
      by (simp add: map_update list_update_same_conv)
    then show ?thesis using Cons.IH [OF rest] by simp
  qed
qed

lemma lock_cells_total:
  assumes "\<forall>c \<in> set ps. snd c \<ge> 0 \<longrightarrow>
      snd c < int (length g) \<and> 0 \<le> fst c \<and> fst c < int (length (g ! nat (snd c)))"
  shows "\<exists>g'. lock_cells k g ps = Inr g'"
  using assms
proof (induction ps arbitrary: g)
  case Nil
  then show ?case by simp
next
  case (Cons c ps)
  show ?case
  proof (cases "snd c \<ge> 0")
    case False
    then show ?thesis using Cons by simp
  next
    case True
    let ?j = "nat (snd c)"
    let ?row = "(g ! ?j)[nat (fst c) := Some k]"
    have c: "snd c < int (length g)" "0 \<le> fst c" "fst c < int (length (g ! ?j))"
      using Cons.prems True by simp_all
    have j: "norm_index g (snd c) = Inr ?j"
      using True c by (simp add: norm_index_in_range)
    have row: "setitem (g ! ?j) (fst c) (Some k) = Inr ?row"
      using c by (simp add: setitem_in_range)
    have same: "length (g[?j := ?row] ! i) = length (g ! i)" for i
      by (cases "i = ?j"; cases "?j < length g") (simp_all add: list_update_beyond)
    have "\<forall>d \<in> set ps. snd d \<ge> 0 \<longrightarrow>
        snd d < int (length (g[?j := ?row])) \<and> 0 \<le> fst d \<and>
        fst d < int (length (g[?j := ?row] ! nat (snd d)))"
      using Cons.prems by (simp add: same)
    from Cons.IH [OF this] show ?thesis
      using True j row by simp
  qed
qed

lemma board_ok_map_length:
  "board_ok b \<longleftrightarrow> width b = 10 \<and> height b = 20 \<and> map length (grid b) = replicate 20 10"
  by (auto simp: board_ok_def list_all_length list_eq_iff_nth_eq)

lemma valid_cells_in_range:
  assumes "board_ok b" and "is_valid_position b p = Inr True" and "c \<in> set (get_positions p)"
  shows "0 \<le> fst c \<and> fst c < 10 \<and> snd c < 20
       \<and> (snd c \<ge> 0 \<longrightarrow> grid b ! nat (snd c) ! nat (fst c) = None)"
proof -
  have "\<not> cell_rejected b c"
    using assms by (auto simp: is_valid_position_char list_ex_iff)
  then show ?thesis by (auto simp: cell_rejected_def)
qed

lemma Board_lock_piece_total:
  assumes "board_ok b" and "is_valid_position b p = Inr True"
  shows "\<exists>b'. Board_lock_piece b p = Inr b' \<and> board_ok b'"
proof -
  have len: "length (grid b) = 20"
    using assms(1) by (simp add: board_ok_def)
  have "\<forall>c \<in> set (get_positions p). snd c \<ge> 0 \<longrightarrow>
      snd c < int (length (grid b)) \<and> 0 \<le> fst c \<and>
      fst c < int (length (grid b ! nat (snd c)))"
  proof (intro ballI impI)
    fix c assume c: "c \<in> set (get_positions p)" and nonneg: "snd c \<ge> 0"
    have r: "0 \<le> fst c \<and> fst c < 10 \<and> snd c < 20"
      using valid_cells_in_range [OF assms c] by simp
    then have "length (grid b ! nat (snd c)) = 10"
      using nonneg assms(1) by (intro board_ok_row) auto
    then show "snd c < int (length (grid b)) \<and> 0 \<le> fst c \<and>
        fst c < int (length (grid b ! nat (snd c)))"
      using r len by simp
  qed
  from lock_cells_total [OF this] obtain g' where
    g': "lock_cells (type p) (grid b) (get_positions p) = Inr g'"
    by blast
  have "map length g' = map length (grid b)"
    using g' by (rule lock_cells_shape)
  then have "board_ok (b\<lparr>grid := g'\<rparr>)"
    using assms(1) by (simp add: board_ok_map_length)
  then show ?thesis
    using g' by (simp add: Board_lock_piece_def)
qed

lemma Board_lock_piece_shape:
  assumes "board_ok b" and "Board_lock_piece b p = Inr b'"
  shows "board_ok b'"
proof -
  obtain g' where g': "lock_cells (type p) (grid b) (get_positions p) = Inr g'"
    and b': "b' = b\<lparr>grid := g'\<rparr>"
    using assms(2) by (auto simp: Board_lock_piece_def split: sum.splits)
  have "map length g' = map length (grid b)"
    using g' by (rule lock_cells_shape)
  then show ?thesis
    using assms(1) b' by (simp add: board_ok_map_length)
qed

lemma clear_lines_shape:
  assumes "board_ok b"
  shows "board_ok (fst (clear_lines b))"
proof -
  let ?k = "length (filter complete_row (grid b))"
  have "?k + length (filter (\<lambda>row. \<not> complete_row row) (grid b)) = 20"
    using length_filter_split [of complete_row "grid b"] assms by (simp add: board_ok_def)
  moreover have "list_all (\<lambda>row. length row = 10) (filter (\<lambda>row. \<not> complete_row row) (grid b))"
    using assms by (auto simp: board_ok_def list_all_iff)
  ultimately show ?thesis
    using assms by (auto simp: clear_lines_char board_ok_def list_all_iff)
qed

lemma Board_reset_shape: "board_ok b \<Longrightarrow> board_ok (Board_reset b)"
  by (simp add: Board_reset_def board_ok_def list_all_iff)

lemma reachable_board_ok: "reachable_board b \<Longrightarrow> board_ok b"
proof (induction rule: reachable_board.induct)
  case fresh
  show ?case by (rule board_ok_init)
next
  case (locked b p b')
  then show ?case by (blast intro: Board_lock_piece_shape)
next
  case (cleared b)
  from cleared.IH show ?case by (rule clear_lines_shape)
next
  case (reset b)
  from reset.IH show ?case by (rule Board_reset_shape)
qed

lemma kind_cases: "k \<in> {KI, KO, KT, KS, KZ, KJ, KL}"
  by (cases k) simp_all

text \<open>
  Claim C10.  Every board reached from the fresh board by locks of validly placed pieces,
  line clears and resets has width 10, height 20 and a grid of 20 rows of 10 cells, each
  empty or one of the seven kinds; on such a board the lock of a validly placed piece
  does not raise, and lock, clear and reset lead to a board of the same kind again.
\<close>

theorem reachable_board_shape:
  assumes "reachable_board b"
  shows "width b = 10 \<and> height b = 20 \<and> length (grid b) = 20
       \<and> (\<forall>row \<in> set (grid b). length row = 10
            \<and> (\<forall>cell \<in> set row. cell = None \<or> cell \<in> Some ` {KI, KO, KT, KS, KZ, KJ, KL}))
       \<and> (\<forall>p. is_valid_position b p = Inr True \<longrightarrow>
            (\<exists>b'. Board_lock_piece b p = Inr b' \<and> reachable_board b'))
       \<and> reachable_board (fst (clear_lines b))
       \<and> reachable_board (Board_reset b)"
proof -
  have ok: "board_ok b"
    using assms by (rule reachable_board_ok)
  have cells: "cell = None \<or> cell \<in> Some ` {KI, KO, KT, KS, KZ, KJ, KL}"
    for cell :: "kind option"
    using kind_cases by (cases cell) auto
  have lock: "\<exists>b'. Board_lock_piece b p = Inr b' \<and> reachable_board b'"
    if "is_valid_position b p = Inr True" for p
    using Board_lock_piece_total [OF ok that] assms that
    by (blast intro: reachable_board.locked)
  have "\<forall>row \<in> set (grid b). length row = 10"
    using ok by (simp add: board_ok_def list_all_iff)
  then show ?thesis
    using ok cells lock assms
    by (simp add: board_ok_def reachable_board.cleared reachable_board.reset)
qed

theorem reachable_board_shape_witness:
  "reachable_board (Board_init\<lparr>grid := o_locked_grid\<rparr>)
   \<and> length (grid (Board_init\<lparr>grid := o_locked_grid\<rparr>)) = 20
   \<and> list_all (\<lambda>row. length row = 10) (grid (Board_init\<lparr>grid := o_locked_grid\<rparr>))
   \<and> reachable_board (Board_reset (Board_init\<lparr>grid := o_locked_grid\<rparr>))"
proof -
  have "is_valid_position Board_init ((Piece_init KO)\<lparr>y := 18\<rparr>) = Inr True"
    using O_valid_on_empty [of 18] by simp
  with reachable_board.fresh have r: "reachable_board (Board_init\<lparr>grid := o_locked_grid\<rparr>)"
    using lock_O_bottom by (rule reachable_board.locked)
  show ?thesis
    using reachable_board_shape [OF r] r by (simp add: list_all_iff)
qed

section \<open>Hard drop\<close>

lemma row_positions_shift:
  "row_positions (p\<lparr>y := y p + d\<rparr>) i row = map (\<lambda>c. (fst c, snd c + d)) (row_positions p i row)"
  by (simp add: row_positions_def split_def o_def)

lemma get_positions_shift:
  "get_positions (p\<lparr>y := y p + d\<rparr>) = map (\<lambda>c. (fst c, snd c + d)) (get_positions p)"
  by (simp add: get_positions_def row_positions_shift map_concat split_def o_def)

lemma piece_ok_has_cells:
  assumes "piece_ok p"
  shows "get_positions p \<noteq> []"
proof -
  have "nat (rotation p) < length (PIECES (type p))" and "shape p = PIECES (type p) ! nat (rotation p)"
    using assms by (auto simp: piece_ok_def)
  then have "shape p \<in> set (PIECES (type p))"
    by (metis nth_mem)
  then show ?thesis
    by (cases "type p") (auto simp: get_positions_def row_positions_def)
qed

lemma is_game_over_total: "board_ok b \<Longrightarrow> is_game_over b = Inr (list_ex (\<lambda>cell. cell \<noteq> None) (grid b ! 0))"
  by (simp add: is_game_over_def board_ok_def getitem_in_range)

lemma Tetris_lock_piece_total:
  assumes "board_ok (board t)"
    and "is_valid_position (board t) (current_piece t) = Inr True"
  shows "\<exists>t'. Tetris_lock_piece k t = Inr t' \<and> board_ok (board t')
      \<and> (game_over t' \<and> current_piece t' = current_piece t \<and> next_piece t' = next_piece t
         \<or> current_piece t' = next_piece t \<and> next_piece t' = Piece_init k)"
proof -
  obtain b1 where b1: "Board_lock_piece (board t) (current_piece t) = Inr b1" and ok1: "board_ok b1"
    using Board_lock_piece_total [OF assms] by blast
  obtain b2 lines where cl: "clear_lines b1 = (b2, lines)"
    by (cases "clear_lines b1")
  have ok2: "board_ok b2"
    using clear_lines_shape [OF ok1] cl by simp
  have over: "is_game_over b2 = Inr (list_ex (\<lambda>cell. cell \<noteq> None) (grid b2 ! 0))"
    using ok2 by (rule is_game_over_total)
  have spawn: "is_valid_position b2 (next_piece t)
      = Inr (\<not> list_ex (cell_rejected b2) (get_positions (next_piece t)))"
    using ok2 by (rule is_valid_position_char)
  show ?thesis
    using b1 cl ok2 over spawn
    by (auto simp: Tetris_lock_piece_def Let_def)
qed

lemma set_y_twice [simp]: "set_y v (set_y w t) = set_y v t"
  by (simp add: set_y_def)

lemma set_y_same: "set_y (y (current_piece t)) t = t"
  by (simp add: set_y_def)

lemma set_y_fields [simp]:
  "board (set_y v t) = board t" "y (current_piece (set_y v t)) = v"
  "next_piece (set_y v t) = next_piece t"
  by (simp_all add: set_y_def)

lemma move_down_free:
  assumes "is_valid_position (board t) (current_piece (set_y (y (current_piece t) + 1) t)) = Inr True"
  shows "move_down k t = Inr (True, set_y (y (current_piece t) + 1) t)"
  using assms by (simp add: move_down_def Let_def)

lemma move_down_blocked:
  assumes "is_valid_position (board t) (current_piece (set_y (y (current_piece t) + 1) t)) = Inr False"
    and "Tetris_lock_piece k t = Inr t'"
  shows "move_down k t = Inr (False, t')"
  using assms by (simp add: move_down_def Let_def set_y_same)

lemma hard_drop_of_seq:
  "move_down_seq (replicate (Suc n) k) t = Inr (replicate n True @ [False], t') \<Longrightarrow>
   hard_drop k t = Some (Inr t')"
proof (induction n arbitrary: t)
  case 0
  then show ?case
    by (subst hard_drop.simps) (auto split: sum.splits)
next
  case (Suc n)
  from Suc.prems obtain t1 where t1: "move_down k t = Inr (True, t1)"
    and rest: "move_down_seq (replicate (Suc n) k) t1 = Inr (replicate n True @ [False], t')"
    by (auto split: sum.splits)
  have "hard_drop k t1 = Some (Inr t')"
    using rest by (rule Suc.IH)
  then show ?case
    using t1 by (subst hard_drop.simps) simp
qed

lemma positions_set_y:
  "get_positions (current_piece (set_y (y (current_piece t) + d) t))
     = map (\<lambda>c. (fst c, snd c + d)) (get_positions (current_piece t))"
  using get_positions_shift [of "current_piece t" d] by (simp add: set_y_def)

text \<open>
  Against claim C9 as stated.  \<open>is_valid_position\<close> does not look at rows above the
  board, so the horizontal \<open>I\<close> piece of \<open>high_state\<close>, two rows above an empty board, is a
  piece of the catalogue at a valid position on a regular board, with the game not over.
  Its first 21 calls of \<open>move_down\<close> all return \<open>True\<close>; the hard drop ends with the 22nd.
\<close>

theorem hard_drop_22_calls:
  "board_ok (board high_state)
   \<and> piece_ok (current_piece high_state)
   \<and> \<not> game_over high_state
   \<and> is_valid_position (board high_state) (current_piece high_state) = Inr True
   \<and> \<not> isl (move_down_seq (replicate 22 KI) high_state)
   \<and> fst (projr (move_down_seq (replicate 22 KI) high_state)) = replicate 21 True @ [False]
   \<and> hard_drop KI high_state = Some (Inr (snd (projr (move_down_seq (replicate 22 KI) high_state))))"
  by code_simp

section \<open>The bounding box of a piece\<close>

lemma enumerate_index: "(i, v) \<in> set (enumerate n xs) \<Longrightarrow> n \<le> i \<and> i < n + length xs \<and> v = xs ! (i - n)"
  by (auto simp: in_set_enumerate_eq)

lemma row_positions_mem:
  "c \<in> set (row_positions p i row) \<longleftrightarrow>
     (\<exists>j. j < length row \<and> row ! j \<noteq> 0 \<and> c = (x p + int j, y p + int i))"
proof
  assume "c \<in> set (row_positions p i row)"
  then obtain j v where "(j, v) \<in> set (enumerate 0 row)" and "v \<noteq> 0"
    and "c = (x p + int j, y p + int i)"
    by (auto simp: row_positions_def)
  then show "\<exists>j. j < length row \<and> row ! j \<noteq> 0 \<and> c = (x p + int j, y p + int i)"
    by (auto simp: in_set_enumerate_eq)
next
  assume "\<exists>j. j < length row \<and> row ! j \<noteq> 0 \<and> c = (x p + int j, y p + int i)"
  then obtain j where j: "j < length row" "row ! j \<noteq> 0" "c = (x p + int j, y p + int i)"
    by blast
  then have "(j, row ! j) \<in> set (filter (\<lambda>(col_idx, cell). cell \<noteq> 0) (enumerate 0 row))"
    by (simp add: in_set_enumerate_eq)
  then show "c \<in> set (row_positions p i row)"
    using j(3) unfolding row_positions_def by force
qed

lemma get_positions_mem:
  "c \<in> set (get_positions p) \<longleftrightarrow>
     (\<exists>i j. i < length (shape p) \<and> j < length (shape p ! i) \<and> shape p ! i ! j \<noteq> 0
        \<and> c = (x p + int j, y p + int i))"
proof
  assume "c \<in> set (get_positions p)"
  then obtain i row where "(i, row) \<in> set (enumerate 0 (shape p))"
    and "c \<in> set (row_positions p i row)"
    by (auto simp: get_positions_def)
  then show "\<exists>i j. i < length (shape p) \<and> j < length (shape p ! i) \<and> shape p ! i ! j \<noteq> 0
        \<and> c = (x p + int j, y p + int i)"
    by (auto simp: in_set_enumerate_eq row_positions_mem)
next
  assume "\<exists>i j. i < length (shape p) \<and> j < length (shape p ! i) \<and> shape p ! i ! j \<noteq> 0
        \<and> c = (x p + int j, y p + int i)"
  then obtain i j where ij: "i < length (shape p)" "j < length (shape p ! i)"
    "shape p ! i ! j \<noteq> 0" "c = (x p + int j, y p + int i)"
    by blast
  then have "(i, shape p ! i) \<in> set (enumerate 0 (shape p))"
    and "c \<in> set (row_positions p i (shape p ! i))"
    by (auto simp: in_set_enumerate_eq row_positions_mem)
  then show "c \<in> set (get_positions p)"
    unfolding get_positions_def by force
qed

lemma get_positions_anchor:
  "get_positions (p\<lparr>x := ax, y := ay\<rparr>)
     = map (\<lambda>c. (fst c + (ax - x p), snd c + (ay - y p))) (get_positions p)"
  by (simp add: get_positions_def row_positions_def map_concat split_def o_def add.commute)

text \<open>Width and height of the matrices of a kind at a rotation index.\<close>

lemma piece_ok_shape:
  assumes "piece_ok p"
  shows "shape p \<in> set (PIECES (type p))"
proof -
  have "nat (rotation p) < length (PIECES (type p))" and "shape p = PIECES (type p) ! nat (rotation p)"
    using assms by (auto simp: piece_ok_def)
  then show ?thesis by (metis nth_mem)
qed

lemma piece_ok_rotate:
  assumes "piece_ok p"
  shows "\<exists>p1. Piece_rotate p = Inr p1 \<and> piece_ok p1 \<and> type p1 = type p \<and> x p1 = x p \<and> y p1 = y p"
proof -
  let ?n = "int (length (rotations p))"
  have pos: "0 < ?n" using assms by (auto simp: piece_ok_def)
  have "0 \<le> (rotation p + 1) mod ?n" "(rotation p + 1) mod ?n < ?n"
    using pos by simp_all
  then show ?thesis
    using assms pos by (simp add: Piece_rotate_def Let_def piece_ok_def)
qed

lemma catalogue_shapes:
  "list_all (\<lambda>sh. shape_tight sh \<and> shape_dims k sh) (PIECES k)"
  by (cases k; hypsubst; code_simp)

lemma piece_ok_tight:
  assumes "piece_ok p"
  shows "shape_tight (shape p)" and "shape_dims (type p) (shape p)"
  using piece_ok_shape [OF assms] catalogue_shapes [of "type p"]
  by (auto simp: list_all_iff)

lemma tight_box:
  assumes "shape_tight (shape p)" and "c \<in> set (get_positions p)"
  shows "x p \<le> fst c \<and> fst c < x p + int (shape_width (shape p))
       \<and> y p \<le> snd c \<and> snd c < y p + int (length (shape p))"
proof -
  obtain i j where ij: "i < length (shape p)" "j < length (shape p ! i)"
    "c = (x p + int j, y p + int i)"
    using assms(2) by (auto simp: get_positions_mem)
  have "length (shape p ! i) = shape_width (shape p)"
    using assms(1) ij(1) by (auto simp: shape_tight_def list_all_length)
  then show ?thesis using ij by simp
qed

lemma tight_first_column:
  assumes "shape_tight (shape p)"
  shows "\<exists>c \<in> set (get_positions p). fst c = x p"
proof -
  obtain i where "i < length (shape p)" "shape p ! i ! 0 \<noteq> 0"
    using assms by (auto simp: shape_tight_def list_ex_length)
  moreover have "0 < length (shape p ! i)"
    using assms \<open>i < length (shape p)\<close> by (auto simp: shape_tight_def list_all_length)
  ultimately have "(x p + int 0, y p + int i) \<in> set (get_positions p)"
    unfolding get_positions_mem by blast
  then show ?thesis by force
qed

lemma tight_last_column:
  assumes "shape_tight (shape p)"
  shows "\<exists>c \<in> set (get_positions p). fst c = x p + int (shape_width (shape p)) - 1"
proof -
  let ?w = "shape_width (shape p)"
  obtain i where i: "i < length (shape p)" "shape p ! i ! (?w - 1) \<noteq> 0"
    using assms by (auto simp: shape_tight_def list_ex_length)
  have w: "1 \<le> ?w" "length (shape p ! i) = ?w"
    using assms i(1) by (auto simp: shape_tight_def list_all_length)
  then have "?w - 1 < length (shape p ! i)" by simp
  with i have "(x p + int (?w - 1), y p + int i) \<in> set (get_positions p)"
    unfolding get_positions_mem by blast
  moreover have "int (?w - 1) = int ?w - 1"
    using w(1) by simp
  ultimately show ?thesis by force
qed

lemma tight_last_row:
  assumes "shape_tight (shape p)"
  shows "\<exists>c \<in> set (get_positions p). snd c = y p + int (length (shape p)) - 1"
proof -
  let ?h = "length (shape p)"
  have h: "1 \<le> ?h" using assms by (simp add: shape_tight_def)
  obtain j where j: "j < length (shape p ! (?h - 1))" "shape p ! (?h - 1) ! j \<noteq> 0"
    using assms by (auto simp: shape_tight_def list_ex_length)
  have "?h - 1 < ?h" using h by simp
  with j have "(x p + int j, y p + int (?h - 1)) \<in> set (get_positions p)"
    unfolding get_positions_mem by blast
  moreover have "int (?h - 1) = int ?h - 1"
    using h by simp
  ultimately show ?thesis by force
qed

text \<open>A valid piece lies between the side walls.\<close>

lemma valid_x_range:
  assumes "board_ok b" and "shape_tight (shape p)" and "is_valid_position b p = Inr True"
  shows "0 \<le> x p \<and> x p + int (shape_width (shape p)) \<le> 10"
proof -
  obtain c1 where c1: "c1 \<in> set (get_positions p)" "fst c1 = x p"
    using tight_first_column [OF assms(2)] by blast
  obtain c2 where c2: "c2 \<in> set (get_positions p)" "fst c2 = x p + int (shape_width (shape p)) - 1"
    using tight_last_column [OF assms(2)] by blast
  show ?thesis
    using valid_cells_in_range [OF assms(1,3) c1(1)] valid_cells_in_range [OF assms(1,3) c2(1)]
      c1(2) c2(2) by simp
qed

text \<open>Above an empty top row only the side walls can reject a cell.\<close>

lemma row0_cell:
  assumes "board_ok b" and "row0_empty b" and "0 \<le> cx" and "cx < 10"
  shows "grid b ! 0 ! nat cx = None"
proof -
  have "length (grid b ! 0) = 10"
    using assms(1) by (intro board_ok_row) simp_all
  then show ?thesis
    using assms(2-4) by (simp add: row0_empty_def list_all_length)
qed

lemma valid_above:
  assumes "board_ok b" and "row0_empty b"
    and "\<forall>c \<in> set (get_positions q). snd c \<le> 0 \<and> 0 \<le> fst c \<and> fst c < 10"
  shows "is_valid_position b q = Inr True"
proof -
  have "\<not> cell_rejected b c" if "c \<in> set (get_positions q)" for c
  proof -
    have c: "snd c \<le> 0" "0 \<le> fst c" "fst c < 10"
      using assms(3) that by auto
    show ?thesis
    proof (cases "snd c = 0")
      case True
      then show ?thesis
        using c row0_cell [OF assms(1,2) c(2,3)] by (simp add: cell_rejected_def)
    next
      case False
      then show ?thesis using c by (simp add: cell_rejected_def)
    qed
  qed
  then show ?thesis
    using assms(1) by (simp add: is_valid_position_char list_ex_iff)
qed

section \<open>What a rotation can do to the anchor\<close>

lemma kick_tests_split: "kick_tests k = side_kicks k @ up_kicks"
  by (simp add: kick_tests_def side_kicks_def up_kicks_def)

lemma find_append_cases:
  "find P (xs @ ys) = (case find P xs of None \<Rightarrow> find P ys | Some v \<Rightarrow> Some v)"
  by (induction xs) simp_all

lemma find_SomeD: "find P xs = Some v \<Longrightarrow> v \<in> set xs \<and> P v"
  by (induction xs) (auto split: if_splits)

text \<open>
  The three outcomes of \<open>rotate_piece\<close>: nothing fits and the state stays; the rotated
  piece fits in its row; it fits nowhere in its row but one row higher.
\<close>

lemma rotate_outcome:
  assumes "board_ok (board t)" and "Piece_rotate (current_piece t) = Inr p1"
  shows "rotate_piece t = Inr t
       \<or> (\<exists>dx. is_valid_position (board t) (at_anchor (x (current_piece t) + dx) (y (current_piece t)) p1)
                 = Inr True
              \<and> rotate_piece t = Inr (t\<lparr>current_piece :=
                   at_anchor (x (current_piece t) + dx) (y (current_piece t)) p1\<rparr>))
       \<or> (is_valid_position (board t) p1 \<noteq> Inr True
          \<and> (\<forall>d \<in> set (side_kicks (type (current_piece t))).
                is_valid_position (board t)
                  (at_anchor (x (current_piece t) + fst d) (y (current_piece t)) p1) \<noteq> Inr True)
          \<and> (\<exists>dx \<in> {0, 1, - 1}.
                is_valid_position (board t)
                  (at_anchor (x (current_piece t) + dx) (y (current_piece t) - 1) p1) = Inr True
                \<and> rotate_piece t = Inr (t\<lparr>current_piece :=
                   at_anchor (x (current_piece t) + dx) (y (current_piece t) - 1) p1\<rparr>)))"
proof -
  let ?ox = "x (current_piece t)" and ?oy = "y (current_piece t)"
  let ?P = "\<lambda>d. is_valid_position (board t) (at_anchor (?ox + fst d) (?oy + snd d) p1) = Inr True"
  let ?k = "type (current_piece t)"
  note char = rotate_piece_char [OF assms]
  have same: "at_anchor ?ox ?oy p1 = p1"
    using Piece_rotate_anchor [OF assms(2)] by (simp add: at_anchor_def)
  have side0: "snd d = 0" if "d \<in> set (side_kicks ?k)" for d
    using that by (auto simp: side_kicks_def split: if_splits)
  show ?thesis
  proof (cases "is_valid_position (board t) p1 = Inr True")
    case True
    then have "rotate_piece t = Inr (t\<lparr>current_piece := at_anchor (?ox + 0) ?oy p1\<rparr>)"
      using char same by simp
    moreover have "is_valid_position (board t) (at_anchor (?ox + 0) ?oy p1) = Inr True"
      using True same by simp
    ultimately show ?thesis by blast
  next
    case False
    note inplace = this
    show ?thesis
    proof (cases "find ?P (side_kicks ?k)")
      case (Some d)
      then have d: "d \<in> set (side_kicks ?k)" "?P d"
        using find_SomeD [of ?P "side_kicks ?k" d] by simp_all
      have "find ?P (kick_tests ?k) = Some d"
        using Some by (simp add: kick_tests_split find_append_cases)
      then have "rotate_piece t = Inr (t\<lparr>current_piece := at_anchor (?ox + fst d) (?oy + snd d) p1\<rparr>)"
        using char inplace by simp
      then show ?thesis
        using d side0 [OF d(1)] by auto
    next
      case None
      then have sides: "\<forall>d \<in> set (side_kicks ?k). \<not> ?P d"
        by (simp add: find_None_iff)
      then have sides': "\<forall>d \<in> set (side_kicks ?k).
          is_valid_position (board t) (at_anchor (?ox + fst d) ?oy p1) \<noteq> Inr True"
        using side0 by simp
      have up: "find ?P (kick_tests ?k) = find ?P up_kicks"
        using None by (simp add: kick_tests_split find_append_cases)
      show ?thesis
      proof (cases "find ?P up_kicks")
        case None
        then show ?thesis using char inplace up by simp
      next
        case (Some d)
        then have d: "d \<in> set up_kicks" "?P d"
          using find_SomeD [of ?P up_kicks d] by simp_all
        then have "fst d \<in> {0, 1, - 1}" "snd d = - 1"
          by (auto simp: up_kicks_def)
        moreover have "rotate_piece t
            = Inr (t\<lparr>current_piece := at_anchor (?ox + fst d) (?oy + snd d) p1\<rparr>)"
          using char inplace up Some by simp
        ultimately show ?thesis
          using d(2) inplace sides' by auto
      qed
    qed
  qed
qed

text \<open>
  A rotated piece whose cells all lie in rows \<open>\<le> 0\<close> fits in its row, at the old column
  or after a kick to the left: no kick upwards happens.
\<close>

lemma fits_in_row:
  assumes "board_ok b" and "row0_empty b"
    and "piece_ok p" and "is_valid_position b p = Inr True"
    and "Piece_rotate p = Inr p1"
    and "y p + int (length (shape p1)) \<le> 1"
  shows "is_valid_position b p1 = Inr True
       \<or> (\<exists>d \<in> set (side_kicks (type p)).
             is_valid_position b (at_anchor (x p + fst d) (y p) p1) = Inr True)"
proof -
  obtain q where q: "Piece_rotate p = Inr q" "piece_ok q" "type q = type p" "x q = x p" "y q = y p"
    using piece_ok_rotate [OF assms(3)] by blast
  then have p1: "piece_ok p1" "type p1 = type p" "x p1 = x p" "y p1 = y p"
    using assms(5) by simp_all
  let ?w = "int (shape_width (shape p))" and ?w1 = "int (shape_width (shape p1))"
  have tight: "shape_tight (shape p)" "shape_dims (type p) (shape p)"
    using piece_ok_tight [OF assms(3)] by simp_all
  have tight1: "shape_tight (shape p1)" "shape_dims (type p) (shape p1)"
    using piece_ok_tight [OF p1(1)] p1(2) by simp_all
  have xr: "0 \<le> x p" "x p + ?w \<le> 10"
    using valid_x_range [OF assms(1) tight(1) assms(4)] by simp_all
  have fits: "is_valid_position b (at_anchor ax (y p) p1) = Inr True"
    if "0 \<le> ax" "ax + ?w1 \<le> 10" for ax
  proof (rule valid_above [OF assms(1,2)], intro ballI)
    fix c assume c: "c \<in> set (get_positions (at_anchor ax (y p) p1))"
    have "shape_tight (shape (at_anchor ax (y p) p1))"
      using tight1(1) by (simp add: at_anchor_def)
    from tight_box [OF this c] show "snd c \<le> 0 \<and> 0 \<le> fst c \<and> fst c < 10"
      using that assms(6) by (simp add: at_anchor_def)
  qed
  have same: "at_anchor (x p) (y p) p1 = p1"
    using p1 by (simp add: at_anchor_def)
  show ?thesis
  proof (cases "x p + ?w1 \<le> 10")
    case True
    then show ?thesis using fits [of "x p"] xr same by simp
  next
    case False
    show ?thesis
    proof (cases "type p = KI")
      case True
      then have "?w1 = 4" "?w = 1"
        using tight(2) tight1(2) False xr by (auto simp: shape_dims_def)
      then have "is_valid_position b (at_anchor (x p + - 3) (y p) p1) = Inr True"
        using False xr by (intro fits) simp_all
      moreover have "(- 3, 0) \<in> set (side_kicks (type p))"
        using True by (simp add: side_kicks_def)
      ultimately show ?thesis by force
    next
      case notI: False
      then have "?w1 = 3" "?w = 2"
        using tight(2) tight1(2) False xr by (auto simp: shape_dims_def)
      then have "is_valid_position b (at_anchor (x p + - 1) (y p) p1) = Inr True"
        using False xr by (intro fits) simp_all
      moreover have "(- 1, 0) \<in> set (side_kicks (type p))"
        by (simp add: side_kicks_def)
      ultimately show ?thesis by force
    qed
  qed
qed

section \<open>Upward kicks of the \<open>I\<close> piece\<close>

lemma col_blocked_3:
  "col_blocked b c 3 \<longleftrightarrow>
     grid b ! 0 ! nat c \<noteq> None \<or> grid b ! 1 ! nat c \<noteq> None \<or> grid b ! 2 ! nat c \<noteq> None"
  by (simp add: col_blocked_def eval_nat_numeral)

lemma col_blocked_4:
  "col_blocked b c 4 \<longleftrightarrow>
     grid b ! 0 ! nat c \<noteq> None \<or> grid b ! 1 ! nat c \<noteq> None \<or> grid b ! 2 ! nat c \<noteq> None
     \<or> grid b ! 3 ! nat c \<noteq> None"
  by (simp add: col_blocked_def eval_nat_numeral)

lemma col_blocked_mono: "col_blocked b c 3 \<Longrightarrow> col_blocked b c 4"
  by (auto simp: col_blocked_3 col_blocked_4)

lemma vertical_positions:
  "shape q = [[1], [1], [1], [1]] \<Longrightarrow>
   get_positions q = [(x q, y q), (x q, y q + 1), (x q, y q + 2), (x q, y q + 3)]"
  by (simp add: get_positions_def row_positions_def)

lemma vertical_at_row0:
  assumes "board_ok b" and "shape q = [[1], [1], [1], [1]]" and "y q = 0"
  shows "is_valid_position b q = Inr True \<longleftrightarrow> 0 \<le> x q \<and> x q < 10 \<and> \<not> col_blocked b (x q) 4"
  using assms
  by (auto simp: is_valid_position_char vertical_positions cell_rejected_def col_blocked_4)

lemma vertical_above_row0:
  assumes "board_ok b" and "shape q = [[1], [1], [1], [1]]" and "y q = - 1"
  shows "is_valid_position b q = Inr True \<longleftrightarrow> 0 \<le> x q \<and> x q < 10 \<and> \<not> col_blocked b (x q) 3"
  using assms
  by (auto simp: is_valid_position_char vertical_positions cell_rejected_def col_blocked_3)

lemma towers_from_kicks:
  assumes "kicked_once b" and "0 \<le> xb" and "xb \<le> 6"
    and "\<forall>c \<in> {0..9}. \<bar>c - xb\<bar> \<le> 3 \<longrightarrow> col_blocked b c 3"
  shows "towers b"
proof -
  obtain xa ca where xa: "0 \<le> xa" "xa \<le> 6"
    and near: "\<forall>c \<in> {0..9}. \<bar>c - xa\<bar> \<le> 3 \<longrightarrow> col_blocked b c 4"
    and ca: "0 \<le> ca" "ca \<le> 9" "\<bar>ca - xa\<bar> \<le> 1" "\<not> col_blocked b ca 3"
    using assms(1) by (auto simp: kicked_once_def)
  have far: "\<not> \<bar>ca - xb\<bar> \<le> 3"
    using assms(4) ca by auto
  have "col_blocked b c 4" if c: "0 \<le> c" "c \<le> 6" for c
  proof (cases "\<bar>c - xa\<bar> \<le> 3")
    case True
    then show ?thesis using near c by simp
  next
    case False
    then have "\<bar>c - xb\<bar> \<le> 3"
      using far ca xa c assms(2,3) by arith
    then show ?thesis
      using assms(4) c by (simp add: col_blocked_mono)
  qed
  then show ?thesis by (simp add: towers_def)
qed

lemma I_shapes:
  assumes "piece_ok p" and "type p = KI"
  shows "(rotation p = 0 \<and> shape p = [[1, 1, 1, 1]]) \<or> (rotation p = 1 \<and> shape p = [[1], [1], [1], [1]])"
proof -
  have "0 \<le> rotation p" "rotation p < 2" "shape p = PIECES KI ! nat (rotation p)"
    using assms by (auto simp: piece_ok_def)
  moreover from this have "rotation p = 0 \<or> rotation p = 1" by arith
  ultimately show ?thesis by auto
qed

lemma I_row_blocked:
  assumes "x p1 = ax" and "y p1 = ay"
    and "is_valid_position b p1 \<noteq> Inr True"
    and "\<forall>d \<in> set (side_kicks KI). is_valid_position b (at_anchor (ax + fst d) ay p1) \<noteq> Inr True"
    and "\<bar>c - ax\<bar> \<le> 3"
  shows "is_valid_position b (at_anchor c ay p1) \<noteq> Inr True"
proof (cases "c = ax")
  case True
  then have "at_anchor c ay p1 = p1"
    using assms(1,2) by (simp add: at_anchor_def)
  then show ?thesis using assms(3) by simp
next
  case False
  then have "c - ax \<in> {1, - 1, 2, - 2, 3, - 3}"
    using assms(5) by auto
  then have "(c - ax, 0) \<in> set (side_kicks KI)"
    by (auto simp: side_kicks_def)
  then have "is_valid_position b (at_anchor (ax + fst (c - ax, 0 :: int)) ay p1) \<noteq> Inr True"
    using assms(4) by blast
  then show ?thesis by simp
qed

lemma at_anchor_fields [simp]:
  "x (at_anchor ax ay p) = ax" "y (at_anchor ax ay p) = ay"
  "type (at_anchor ax ay p) = type p" "shape (at_anchor ax ay p) = shape p"
  "rotation (at_anchor ax ay p) = rotation p" "rotations (at_anchor ax ay p) = rotations p"
  by (simp_all add: at_anchor_def)

lemma piece_ok_at_anchor [simp]: "piece_ok (at_anchor ax ay p) = piece_ok p"
  by (simp add: piece_ok_def)

lemma kick_from_row0:
  assumes "board_ok b" and "shape p1 = [[1], [1], [1], [1]]"
    and "0 \<le> ax" and "ax \<le> 6"
    and "\<forall>c. \<bar>c - ax\<bar> \<le> 3 \<longrightarrow> is_valid_position b (at_anchor c 0 p1) \<noteq> Inr True"
    and "dx \<in> {0, 1, - 1}"
    and "is_valid_position b (at_anchor (ax + dx) (- 1) p1) = Inr True"
  shows "kicked_once b"
proof -
  have near: "\<forall>c \<in> {0..9}. \<bar>c - ax\<bar> \<le> 3 \<longrightarrow> col_blocked b c 4"
  proof (intro ballI impI)
    fix c :: int assume c: "c \<in> {0..9}" and "\<bar>c - ax\<bar> \<le> 3"
    then have "is_valid_position b (at_anchor c 0 p1) \<noteq> Inr True"
      using assms(5) by blast
    then show "col_blocked b c 4"
      using vertical_at_row0 [OF assms(1), of "at_anchor c 0 p1"] assms(2) c by simp
  qed
  have "0 \<le> ax + dx \<and> ax + dx < 10 \<and> \<not> col_blocked b (ax + dx) 3"
    using vertical_above_row0 [OF assms(1), of "at_anchor (ax + dx) (- 1) p1"] assms(2,7) by simp
  moreover have "\<bar>(ax + dx) - ax\<bar> \<le> 1"
    using assms(6) by auto
  ultimately have "\<exists>ca \<in> {0..9}. \<bar>ca - ax\<bar> \<le> 1 \<and> \<not> col_blocked b ca 3"
    by (intro bexI [of _ "ax + dx"]) auto
  then show ?thesis
    using near assms(3,4) unfolding kicked_once_def by (intro bexI [of _ ax]) auto
qed

lemma kick_from_row_above:
  assumes "board_ok b" and "shape p1 = [[1], [1], [1], [1]]"
    and "0 \<le> ax" and "ax \<le> 6" and "kicked_once b"
    and "\<forall>c. \<bar>c - ax\<bar> \<le> 3 \<longrightarrow> is_valid_position b (at_anchor c (- 1) p1) \<noteq> Inr True"
  shows "towers b"
proof (rule towers_from_kicks [OF assms(5,3,4)], intro ballI impI)
  fix c :: int assume c: "c \<in> {0..9}" and "\<bar>c - ax\<bar> \<le> 3"
  then have "is_valid_position b (at_anchor c (- 1) p1) \<noteq> Inr True"
    using assms(6) by blast
  then show "col_blocked b c 3"
    using vertical_above_row0 [OF assms(1), of "at_anchor c (- 1) p1"] assms(2) c by simp
qed

section \<open>The engine invariant\<close>

lemma height_inv_lower:
  assumes "height_inv t" and "type q = type (current_piece t)" and "y (current_piece t) \<le> y q"
  shows "height_inv (t\<lparr>current_piece := q\<rparr>)"
  using assms by (auto simp: height_inv_def)

lemma engine_inv_replace:
  assumes "engine_inv t" and "piece_ok q"
    and "is_valid_position (board t) q = Inr True"
    and "height_inv (t\<lparr>current_piece := q\<rparr>)"
  shows "engine_inv (t\<lparr>current_piece := q\<rparr>)"
  using assms by (simp add: engine_inv_def)

lemma rotation_of_I:
  assumes "piece_ok p" and "type p = KI" and "Piece_rotate p = Inr p1"
    and "shape p1 = [[1], [1], [1], [1]]"
  shows "shape p = [[1, 1, 1, 1]]"
proof -
  have len: "length (rotations p) = 2"
    using assms(1,2) by (simp add: piece_ok_def)
  have "rotation p1 = (rotation p + 1) mod 2" "shape p1 = PIECES KI ! nat ((rotation p + 1) mod 2)"
    using assms(1,2,3) len by (auto simp: Piece_rotate_def Let_def piece_ok_def)
  moreover have "rotation p = 0 \<or> rotation p = 1"
    using I_shapes [OF assms(1,2)] by blast
  ultimately have "rotation p = 0"
    using assms(4) by auto
  then show ?thesis
    using I_shapes [OF assms(1,2)] by simp
qed

lemma kick_up_height:
  assumes "engine_inv t" and "\<not> game_over t"
    and "Piece_rotate (current_piece t) = Inr p1" and "piece_ok p1"
    and "type p1 = type (current_piece t)"
    and "x p1 = x (current_piece t)" and "y p1 = y (current_piece t)"
    and "is_valid_position (board t) p1 \<noteq> Inr True"
    and "\<forall>d \<in> set (side_kicks (type (current_piece t))).
           is_valid_position (board t)
             (at_anchor (x (current_piece t) + fst d) (y (current_piece t)) p1) \<noteq> Inr True"
    and "dx \<in> {0, 1, - 1}"
    and "is_valid_position (board t)
           (at_anchor (x (current_piece t) + dx) (y (current_piece t) - 1) p1) = Inr True"
  shows "height_inv (t\<lparr>current_piece :=
           at_anchor (x (current_piece t) + dx) (y (current_piece t) - 1) p1\<rparr>)"
proof -
  let ?p = "current_piece t" and ?b = "board t"
  let ?q = "at_anchor (x ?p + dx) (y ?p - 1) p1"
  have ok: "board_ok ?b" and pk: "piece_ok ?p" and r0: "row0_empty ?b"
    and v: "is_valid_position ?b ?p = Inr True" and h: "height_inv t"
    using assms(1,2) by (simp_all add: engine_inv_def)
  have nofit: "\<not> y ?p + int (length (shape p1)) \<le> 1"
    using fits_in_row [OF ok r0 pk v assms(3)] assms(8,9) by blast
  have dims: "shape_dims (type ?p) (shape p1)"
    using piece_ok_tight(2) [OF assms(4)] assms(5) by simp
  show ?thesis
  proof (cases "type ?p = KI")
    case False
    then have "length (shape p1) \<le> 3"
      using dims by (auto simp: shape_dims_def)
    then have "- 1 \<le> y ?p" using nofit by simp
    then show ?thesis
      using False assms(5) by (simp add: height_inv_def)
  next
    case True
    show ?thesis
    proof (cases "1 \<le> y ?p")
      case True
      then show ?thesis by (simp add: height_inv_def)
    next
      case False
      then have four: "length (shape p1) = 4" and low: "- 2 \<le> y ?p"
        using dims nofit \<open>type ?p = KI\<close> by (auto simp: shape_dims_def)
      have vert: "shape p1 = [[1], [1], [1], [1]]"
        using I_shapes [OF assms(4)] assms(5) \<open>type ?p = KI\<close> four by auto
      have "shape ?p = [[1, 1, 1, 1]]"
        using rotation_of_I [OF pk \<open>type ?p = KI\<close> assms(3) vert] .
      then have "shape_width (shape ?p) = 4"
        by (simp add: shape_width_def)
      then have xr: "0 \<le> x ?p" "x ?p \<le> 6"
        using valid_x_range [OF ok piece_ok_tight(1) [OF pk] v] by simp_all
      have blocked: "\<forall>c. \<bar>c - x ?p\<bar> \<le> 3 \<longrightarrow>
          is_valid_position ?b (at_anchor c (y ?p) p1) \<noteq> Inr True"
        using I_row_blocked [OF assms(6,7,8)] assms(9) \<open>type ?p = KI\<close> by simp
      consider "y ?p = 0" | "y ?p = - 1" | "y ?p = - 2"
        using False low by arith
      then show ?thesis
      proof cases
        case 1
        then have "kicked_once ?b"
          using kick_from_row0 [OF ok vert xr _ assms(10)] blocked assms(11) by simp
        then show ?thesis
          using 1 \<open>type ?p = KI\<close> assms(5) by (simp add: height_inv_def)
      next
        case 2
        then have once: "kicked_once ?b"
          using h \<open>type ?p = KI\<close> by (simp add: height_inv_def)
        then have "towers ?b"
          using kick_from_row_above [OF ok vert xr once] blocked 2 by simp
        then show ?thesis
          using 2 once \<open>type ?p = KI\<close> assms(5) by (simp add: height_inv_def)
      next
        case 3
        then have "kicked_once ?b \<and> towers ?b"
          using h \<open>type ?p = KI\<close> by (simp add: height_inv_def)
        then show ?thesis
          using 3 \<open>type ?p = KI\<close> assms(5) by (simp add: height_inv_def)
      qed
    qed
  qed
qed

lemma rotate_piece_inv:
  assumes "engine_inv t" and "\<not> game_over t" and "rotate_piece t = Inr t'"
  shows "engine_inv t' \<and> \<not> game_over t'"
proof -
  let ?p = "current_piece t" and ?b = "board t"
  have ok: "board_ok ?b" and pk: "piece_ok ?p" and h: "height_inv t"
    using assms(1,2) by (simp_all add: engine_inv_def)
  obtain p1 where rot: "Piece_rotate ?p = Inr p1" and p1: "piece_ok p1" "type p1 = type ?p"
    "x p1 = x ?p" "y p1 = y ?p"
    using piece_ok_rotate [OF pk] by blast
  from rotate_outcome [OF ok rot] consider
    (stay) "rotate_piece t = Inr t"
    | (row) dx where "is_valid_position ?b (at_anchor (x ?p + dx) (y ?p) p1) = Inr True"
        "rotate_piece t = Inr (t\<lparr>current_piece := at_anchor (x ?p + dx) (y ?p) p1\<rparr>)"
    | (up) dx where "is_valid_position ?b p1 \<noteq> Inr True"
        "\<forall>d \<in> set (side_kicks (type ?p)).
           is_valid_position ?b (at_anchor (x ?p + fst d) (y ?p) p1) \<noteq> Inr True"
        "dx \<in> {0, 1, - 1}"
        "is_valid_position ?b (at_anchor (x ?p + dx) (y ?p - 1) p1) = Inr True"
        "rotate_piece t = Inr (t\<lparr>current_piece := at_anchor (x ?p + dx) (y ?p - 1) p1\<rparr>)"
    by blast
  then show ?thesis
  proof cases
    case stay
    then show ?thesis using assms by simp
  next
    case row
    let ?q = "at_anchor (x ?p + dx) (y ?p) p1"
    have "height_inv (t\<lparr>current_piece := ?q\<rparr>)"
      using h p1(2) by (intro height_inv_lower) simp_all
    then have "engine_inv (t\<lparr>current_piece := ?q\<rparr>)"
      using assms(1) p1(1) row(1) by (intro engine_inv_replace) simp_all
    then show ?thesis using row(2) assms(2,3) by auto
  next
    case up
    let ?q = "at_anchor (x ?p + dx) (y ?p - 1) p1"
    have "height_inv (t\<lparr>current_piece := ?q\<rparr>)"
      using kick_up_height [OF assms(1,2) rot p1 up(1,2,3,4)] .
    then have "engine_inv (t\<lparr>current_piece := ?q\<rparr>)"
      using assms(1) p1(1) up(4) by (intro engine_inv_replace) simp_all
    then show ?thesis using up(5) assms(2,3) by auto
  qed
qed

section \<open>Operations keep the invariant\<close>

lemma piece_ok_init: "piece_ok (Piece_init k)"
  by (cases k) (simp_all add: piece_ok_def Piece_init_def)

lemma spawn_on_empty: "is_valid_position Board_init (Piece_init k) = Inr True"
  by (cases k; hypsubst; code_simp)

lemma row0_empty_init: "row0_empty Board_init"
  by code_simp

lemma Piece_init_fields [simp]: "type (Piece_init k) = k" "y (Piece_init k) = 0"
  by (simp_all add: Piece_init_def)

lemma engine_inv_init: "engine_inv (Tetris_init k1 k2 now)"
  by (simp add: engine_inv_def Tetris_init_def board_ok_init piece_ok_init row0_empty_init
      spawn_on_empty height_inv_def)

lemma Board_reset_init: "board_ok b \<Longrightarrow> Board_reset b = Board_init"
  by (cases b) (simp add: Board_reset_def Board_init_def board_ok_def BOARD_WIDTH_def BOARD_HEIGHT_def)

lemma Tetris_reset_inv: "engine_inv t \<Longrightarrow> engine_inv (Tetris_reset k1 k2 now t)"
  by (simp add: engine_inv_def Tetris_reset_def Board_reset_init board_ok_init piece_ok_init
      row0_empty_init spawn_on_empty height_inv_def)

lemma set_x_piece: "set_x v t = t\<lparr>current_piece := (current_piece t)\<lparr>x := v\<rparr>\<rparr>"
  by (simp add: set_x_def)

lemma set_y_piece: "set_y v t = t\<lparr>current_piece := (current_piece t)\<lparr>y := v\<rparr>\<rparr>"
  by (simp add: set_y_def)

lemma engine_inv_shift:
  assumes "engine_inv t" and "\<not> game_over t"
    and "is_valid_position (board t) ((current_piece t)\<lparr>x := ax, y := ay\<rparr>) = Inr True"
    and "y (current_piece t) \<le> ay"
  shows "engine_inv (t\<lparr>current_piece := (current_piece t)\<lparr>x := ax, y := ay\<rparr>\<rparr>)"
proof -
  have "piece_ok ((current_piece t)\<lparr>x := ax, y := ay\<rparr>)"
    using assms(1) by (auto simp: engine_inv_def piece_ok_def)
  moreover have "height_inv (t\<lparr>current_piece := (current_piece t)\<lparr>x := ax, y := ay\<rparr>\<rparr>)"
    using assms(1,2,4) by (intro height_inv_lower) (simp_all add: engine_inv_def)
  ultimately show ?thesis
    using assms(1,3) by (intro engine_inv_replace)
qed

lemma move_left_inv:
  assumes "engine_inv t" and "\<not> game_over t" and "move_left t = Inr t'"
  shows "engine_inv t' \<and> \<not> game_over t'"
proof -
  let ?q = "(current_piece t)\<lparr>x := x (current_piece t) - 1\<rparr>"
  show ?thesis
  proof (cases "is_valid_position (board t) ?q = Inr True")
    case True
    then have "t' = t\<lparr>current_piece := ?q\<rparr>"
      using assms(3) by (simp add: move_left_def set_x_def Let_def)
    moreover have "engine_inv (t\<lparr>current_piece := ?q\<rparr>)"
      using engine_inv_shift [OF assms(1,2), where ax = "x (current_piece t) - 1"
          and ay = "y (current_piece t)"] True
      by simp
    ultimately show ?thesis using assms(2) by simp
  next
    case False
    then have "t' = t"
      using assms(3) by (auto simp: move_left_def set_x_def Let_def split: sum.splits)
    then show ?thesis using assms by simp
  qed
qed

lemma move_right_inv:
  assumes "engine_inv t" and "\<not> game_over t" and "move_right t = Inr t'"
  shows "engine_inv t' \<and> \<not> game_over t'"
proof -
  let ?q = "(current_piece t)\<lparr>x := x (current_piece t) + 1\<rparr>"
  show ?thesis
  proof (cases "is_valid_position (board t) ?q = Inr True")
    case True
    then have "t' = t\<lparr>current_piece := ?q\<rparr>"
      using assms(3) by (simp add: move_right_def set_x_def Let_def)
    moreover have "engine_inv (t\<lparr>current_piece := ?q\<rparr>)"
      using engine_inv_shift [OF assms(1,2), where ax = "x (current_piece t) + 1"
          and ay = "y (current_piece t)"] True
      by simp
    ultimately show ?thesis using assms(2) by simp
  next
    case False
    then have "t' = t"
      using assms(3) by (auto simp: move_right_def set_x_def Let_def split: sum.splits)
    then show ?thesis using assms by simp
  qed
qed

text \<open>
  A lock either ends the game with the top row occupied, or spawns the next piece over an
  empty top row.
\<close>

lemma Tetris_lock_piece_spawn:
  assumes "board_ok (board t)"
    and "is_valid_position (board t) (current_piece t) = Inr True"
  shows "\<exists>t'. Tetris_lock_piece k t = Inr t' \<and> board_ok (board t')
      \<and> (game_over t' \<and> current_piece t' = current_piece t \<and> next_piece t' = next_piece t
         \<or> current_piece t' = next_piece t \<and> next_piece t' = Piece_init k
           \<and> row0_empty (board t')
           \<and> (game_over t' \<or> is_valid_position (board t') (current_piece t') = Inr True))"
proof -
  obtain b1 where b1: "Board_lock_piece (board t) (current_piece t) = Inr b1" and ok1: "board_ok b1"
    using Board_lock_piece_total [OF assms] by blast
  obtain b2 lines where cl: "clear_lines b1 = (b2, lines)"
    by (cases "clear_lines b1")
  have ok2: "board_ok b2"
    using clear_lines_shape [OF ok1] cl by simp
  have over: "is_game_over b2 = Inr (list_ex (\<lambda>cell. cell \<noteq> None) (grid b2 ! 0))"
    using ok2 by (rule is_game_over_total)
  have empty: "row0_empty b2" if "\<not> list_ex (\<lambda>cell. cell \<noteq> None) (grid b2 ! 0)"
    using that by (simp add: row0_empty_def list_ex_iff list_all_iff)
  have spawn: "is_valid_position b2 (next_piece t) = Inr True
      \<or> is_valid_position b2 (next_piece t) = Inr False"
    using ok2 by (auto simp: is_valid_position_char)
  show ?thesis
  proof (cases "list_ex (\<lambda>cell. cell \<noteq> None) (grid b2 ! 0)")
    case True
    then show ?thesis
      using b1 cl ok2 over by (simp add: Tetris_lock_piece_def Let_def)
  next
    case False
    then show ?thesis
      using b1 cl ok2 over empty spawn by (auto simp: Tetris_lock_piece_def Let_def)
  qed
qed

lemma Tetris_lock_piece_inv:
  assumes "engine_inv t" and "is_valid_position (board t) (current_piece t) = Inr True"
    and "Tetris_lock_piece k t = Inr t'"
  shows "engine_inv t'"
proof -
  have ok: "board_ok (board t)" and pk: "piece_ok (current_piece t)"
    and nx: "next_piece t = Piece_init (type (next_piece t))"
    using assms(1) by (simp_all add: engine_inv_def)
  have nk: "piece_ok (next_piece t)" "y (next_piece t) = 0"
    using nx piece_ok_init [of "type (next_piece t)"] Piece_init_fields(2) [of "type (next_piece t)"]
    by simp_all
  from Tetris_lock_piece_spawn [OF ok assms(2), of k] assms(3)
  have "board_ok (board t')
      \<and> (game_over t' \<and> current_piece t' = current_piece t \<and> next_piece t' = next_piece t
         \<or> current_piece t' = next_piece t \<and> next_piece t' = Piece_init k
           \<and> row0_empty (board t')
           \<and> (game_over t' \<or> is_valid_position (board t') (current_piece t') = Inr True))"
    by auto
  then show ?thesis
    using pk nx nk piece_ok_init [of k] by (auto simp: engine_inv_def height_inv_def)
qed

lemma move_down_inv:
  assumes "engine_inv t" and "\<not> game_over t" and "move_down k t = Inr r"
  shows "engine_inv (snd r)"
proof -
  let ?q = "(current_piece t)\<lparr>y := y (current_piece t) + 1\<rparr>"
  have ok: "board_ok (board t)"
    and v: "is_valid_position (board t) (current_piece t) = Inr True"
    using assms(1,2) by (simp_all add: engine_inv_def)
  show ?thesis
  proof (cases "is_valid_position (board t) ?q = Inr True")
    case True
    then have "r = (True, t\<lparr>current_piece := ?q\<rparr>)"
      using assms(3) by (simp add: move_down_def set_y_def Let_def)
    moreover have "engine_inv (t\<lparr>current_piece := ?q\<rparr>)"
      using engine_inv_shift [OF assms(1,2), where ax = "x (current_piece t)"
          and ay = "y (current_piece t) + 1"] True
      by simp
    ultimately show ?thesis by simp
  next
    case False
    then have "is_valid_position (board t) ?q = Inr False"
      using ok by (simp add: is_valid_position_bool)
    then have "Tetris_lock_piece k t = Inr (snd r)"
      using assms(3) by (auto simp: move_down_def set_y_def Let_def split: sum.splits)
    then show ?thesis
      using assms(1) v by (rule Tetris_lock_piece_inv [rotated 2])
  qed
qed

section \<open>The run of a hard drop\<close>

text \<open>
  From a valid position the piece falls \<open>n\<close> rows through valid positions, and the next
  call of \<open>move_down\<close> locks it there.
\<close>

lemma drop_run:
  assumes "board_ok (board t)"
    and "is_valid_position (board t) (current_piece t) = Inr True"
    and "c \<in> set (get_positions (current_piece t))"
    and "19 - snd c \<le> int m"
  shows "\<exists>n t'. n \<le> m
      \<and> move_down_seq (replicate (Suc n) k) t = Inr (replicate n True @ [False], t')
      \<and> (\<forall>j \<le> n. is_valid_position (board t)
             (current_piece (set_y (y (current_piece t) + int j) t)) = Inr True)
      \<and> Tetris_lock_piece k (set_y (y (current_piece t) + int n) t) = Inr t'"
  using assms
proof (induction m arbitrary: t c)
  case 0
  let ?t1 = "set_y (y (current_piece t) + 1) t"
  have "(fst c, snd c + 1) \<in> set (get_positions (current_piece ?t1))"
    using "0.prems"(3) by (force simp: positions_set_y)
  moreover have "snd c + 1 \<ge> 20"
    using "0.prems"(4) by simp
  ultimately have "list_ex (cell_rejected (board t)) (get_positions (current_piece ?t1))"
    by (force simp: list_ex_iff cell_rejected_def)
  then have blocked: "is_valid_position (board t) (current_piece ?t1) = Inr False"
    using "0.prems"(1) by (simp add: is_valid_position_char)
  obtain t' where t': "Tetris_lock_piece k t = Inr t'"
    using Tetris_lock_piece_total [OF "0.prems"(1,2)] by blast
  have "move_down k t = Inr (False, t')"
    using blocked t' by (rule move_down_blocked)
  then have "move_down_seq (replicate (Suc 0) k) t = Inr (replicate 0 True @ [False], t')"
    by simp
  then show ?case
    using t' "0.prems"(2) by (intro exI [of _ 0] exI [of _ t']) (simp add: set_y_same)
next
  case (Suc m)
  let ?t1 = "set_y (y (current_piece t) + 1) t"
  show ?case
  proof (cases "is_valid_position (board t) (current_piece ?t1) = Inr True")
    case False
    then have blocked: "is_valid_position (board t) (current_piece ?t1) = Inr False"
      using Suc.prems(1) by (simp add: is_valid_position_bool)
    obtain t' where t': "Tetris_lock_piece k t = Inr t'"
      using Tetris_lock_piece_total [OF Suc.prems(1,2)] by blast
    have "move_down k t = Inr (False, t')"
      using blocked t' by (rule move_down_blocked)
    then have "move_down_seq (replicate (Suc 0) k) t = Inr (replicate 0 True @ [False], t')"
      by simp
    then show ?thesis
      using t' Suc.prems(2) by (intro exI [of _ 0] exI [of _ t']) (simp add: set_y_same)
  next
    case True
    have step: "move_down k t = Inr (True, ?t1)"
      using True by (rule move_down_free)
    have c1: "(fst c, snd c + 1) \<in> set (get_positions (current_piece ?t1))"
      using Suc.prems(3) by (force simp: positions_set_y)
    have "19 - snd (fst c, snd c + 1) \<le> int m"
      using Suc.prems(4) by simp
    with Suc.IH [of ?t1 "(fst c, snd c + 1)"] True c1 Suc.prems(1)
    obtain n t' where n: "n \<le> m"
      and seq: "move_down_seq (replicate (Suc n) k) ?t1 = Inr (replicate n True @ [False], t')"
      and valid: "\<forall>j \<le> n. is_valid_position (board t)
          (current_piece (set_y (y (current_piece t) + 1 + int j) t)) = Inr True"
      and lock: "Tetris_lock_piece k (set_y (y (current_piece t) + 1 + int n) t) = Inr t'"
      by auto
    have "move_down_seq (replicate (Suc (Suc n)) k) t
        = Inr (replicate (Suc n) True @ [False], t')"
      using step seq by simp
    moreover have "is_valid_position (board t)
          (current_piece (set_y (y (current_piece t) + int j) t)) = Inr True"
      if "j \<le> Suc n" for j
    proof (cases j)
      case 0
      then show ?thesis using Suc.prems(2) by (simp add: set_y_same)
    next
      case (Suc i)
      then have "i \<le> n" using that by simp
      then show ?thesis using valid Suc by (simp add: ac_simps)
    qed
    ultimately show ?thesis
      using n lock
      by (intro exI [of _ "Suc n"] exI [of _ t']) (simp add: ac_simps)
  qed
qed

lemma hard_drop_general:
  assumes "board_ok (board t)"
    and "is_valid_position (board t) (current_piece t) = Inr True"
    and "get_positions (current_piece t) \<noteq> []"
  shows "\<exists>n t'.
      move_down_seq (replicate (n + 1) k) t = Inr (replicate n True @ [False], t')
      \<and> hard_drop k t = Some (Inr t')
      \<and> (\<forall>j \<le> n. is_valid_position (board t)
             (current_piece (set_y (y (current_piece t) + int j) t)) = Inr True)
      \<and> (\<forall>c \<in> set (get_positions (current_piece t)). int n + 1 \<le> 20 - snd c)
      \<and> Tetris_lock_piece k (set_y (y (current_piece t) + int n) t) = Inr t'
      \<and> (game_over t' \<and> current_piece t' = current_piece (set_y (y (current_piece t) + int n) t)
         \<or> current_piece t' = next_piece t \<and> next_piece t' = Piece_init k)"
proof -
  obtain c where c: "c \<in> set (get_positions (current_piece t))"
    using assms(3) by (cases "get_positions (current_piece t)") auto
  have "snd c < 20"
    using valid_cells_in_range [OF assms(1,2) c] by simp
  then have "19 - snd c \<le> int (nat (19 - snd c))"
    by simp
  from drop_run [OF assms(1,2) c this, of k] obtain n t' where
    seq: "move_down_seq (replicate (Suc n) k) t = Inr (replicate n True @ [False], t')"
    and valid: "\<forall>j \<le> n. is_valid_position (board t)
        (current_piece (set_y (y (current_piece t) + int j) t)) = Inr True"
    and lock: "Tetris_lock_piece k (set_y (y (current_piece t) + int n) t) = Inr t'"
    by blast
  let ?tn = "set_y (y (current_piece t) + int n) t"
  have vn: "is_valid_position (board t) (current_piece ?tn) = Inr True"
    using valid by simp
  have drop: "hard_drop k t = Some (Inr t')"
    using seq by (rule hard_drop_of_seq)
  have bound: "int n + 1 \<le> 20 - snd d" if "d \<in> set (get_positions (current_piece t))" for d
  proof -
    have "(fst d, snd d + int n) \<in> set (get_positions (current_piece ?tn))"
      using that by (force simp: positions_set_y)
    with valid_cells_in_range [of "board ?tn" "current_piece ?tn"] assms(1) vn
    have "snd d + int n < 20" by fastforce
    then show ?thesis by simp
  qed
  have "game_over t' \<and> current_piece t' = current_piece ?tn
      \<or> current_piece t' = next_piece t \<and> next_piece t' = Piece_init k"
    using Tetris_lock_piece_total [of ?tn k] assms(1) vn lock by auto
  then show ?thesis
    using seq drop bound valid lock by (intro exI [of _ n] exI [of _ t']) simp
qed

lemma hard_drop_inv:
  assumes "engine_inv t" and "\<not> game_over t" and "hard_drop k t = Some (Inr t')"
  shows "engine_inv t'"
proof -
  have ok: "board_ok (board t)" and pk: "piece_ok (current_piece t)"
    and v: "is_valid_position (board t) (current_piece t) = Inr True"
    using assms(1,2) by (simp_all add: engine_inv_def)
  from hard_drop_general [OF ok v piece_ok_has_cells [OF pk], of k] assms(3)
  obtain n where
    valid: "is_valid_position (board t)
        (current_piece (set_y (y (current_piece t) + int n) t)) = Inr True"
    and lock: "Tetris_lock_piece k (set_y (y (current_piece t) + int n) t) = Inr t'"
    by auto
  let ?tn = "set_y (y (current_piece t) + int n) t"
  have "engine_inv ?tn"
    using engine_inv_shift [OF assms(1,2), where ax = "x (current_piece t)"
        and ay = "y (current_piece t) + int n"] valid
    by (simp add: set_y_piece)
  then show ?thesis
    using valid lock by (intro Tetris_lock_piece_inv [of ?tn k t']) simp_all
qed

lemma update_inv:
  assumes "engine_inv t" and "update k now t = Inr t'"
  shows "engine_inv t'"
proof (cases "game_over t \<or> \<not> now - last_fall_time t > fall_speed t")
  case True
  then have "t' = t" using assms(2) by (auto simp: update_def split: if_splits)
  then show ?thesis using assms(1) by simp
next
  case False
  then obtain r where r: "move_down k t = Inr r" and t': "t' = (snd r)\<lparr>last_fall_time := now\<rparr>"
    using assms(2) by (auto simp: update_def split: sum.splits)
  have "engine_inv (snd r)"
    using move_down_inv [OF assms(1) _ r] False by simp
  then show ?thesis
    using t' by (simp add: engine_inv_def height_inv_def)
qed

lemma keydown_playing_inv:
  assumes "engine_inv t" and "keydown_playing event_key k1 k2 now t = Some (Inr (ui, t'))"
  shows "engine_inv t'"
proof (cases "game_over t")
  case True
  then have "t' = t \<or> t' = Tetris_reset k1 k2 now t"
    using assms(2) by (auto simp: keydown_playing_def split: if_splits)
  then show ?thesis using assms(1) Tetris_reset_inv by auto
next
  case False
  consider "t' = t" | "move_left t = Inr t'" | "move_right t = Inr t'"
    | r where "move_down k1 t = Inr r" "t' = snd r" | "rotate_piece t = Inr t'"
    | "hard_drop k1 t = Some (Inr t')"
    using assms(2) False
    by (auto simp: keydown_playing_def split: if_splits sum.splits option.splits)
  then show ?thesis
  proof cases
    case 1
    then show ?thesis using assms(1) by simp
  next
    case 2
    then show ?thesis using move_left_inv [OF assms(1) False] by simp
  next
    case 3
    then show ?thesis using move_right_inv [OF assms(1) False] by simp
  next
    case 4
    then show ?thesis using move_down_inv [OF assms(1) False] by simp
  next
    case 5
    then show ?thesis using rotate_piece_inv [OF assms(1) False] by simp
  next
    case 6
    then show ?thesis using hard_drop_inv [OF assms(1) False] by simp
  qed
qed

lemma reachable_inv: "reachable t \<Longrightarrow> engine_inv t"
proof (induction rule: reachable.induct)
  case (start k1 k2 now)
  show ?case by (rule engine_inv_init)
next
  case (keydown t event_key k1 k2 now ui t')
  then show ?case by (blast intro: keydown_playing_inv)
next
  case (tick t k now t')
  then show ?case by (blast intro: update_inv)
qed

section \<open>After game over the active piece is invalid\<close>

lemma norm_index_nonneg: "0 \<le> i \<Longrightarrow> norm_index xs i = Inr j \<Longrightarrow> j = nat i"
  by (auto simp: norm_index_def split: if_splits)

lemma lock_cells_unchanged:
  assumes "lock_cells k g ps = Inr g'"
    and "\<forall>pos \<in> set ps. 0 \<le> fst pos"
    and "(int c, int r) \<notin> set ps"
  shows "g' ! r ! c = g ! r ! c"
  using assms
proof (induction ps arbitrary: g)
  case Nil
  then show ?case by simp
next
  case (Cons pos ps)
  show ?case
  proof (cases "snd pos \<ge> 0")
    case False
    then show ?thesis using Cons by simp
  next
    case True
    then obtain j row where j: "norm_index g (snd pos) = Inr j"
      and row: "setitem (g ! j) (fst pos) (Some k) = Inr row"
      and rest: "lock_cells k (g[j := row]) ps = Inr g'"
      using Cons.prems(1) by (auto split: sum.splits)
    have jn: "j = nat (snd pos)" "j < length g"
      using norm_index_nonneg [OF True j] norm_index_bound [OF j] by simp_all
    have fx: "0 \<le> fst pos"
      using Cons.prems(2) by simp
    obtain n where n: "norm_index (g ! j) (fst pos) = Inr n" and rw: "row = (g ! j)[n := Some k]"
      using row by (auto simp: setitem_def split: sum.splits)
    have nn: "n = nat (fst pos)"
      using norm_index_nonneg [OF fx n] .
    have differ: "\<not> (r = j \<and> c = n)"
    proof
      assume "r = j \<and> c = n"
      then have "pos = (int c, int r)"
        using jn nn True fx by (cases pos) simp
      then show False using Cons.prems(3) by simp
    qed
    have "g[j := row] ! r ! c = g ! r ! c"
    proof (cases "r = j")
      case True
      then have "c \<noteq> n" using differ by simp
      then show ?thesis using True jn(2) rw by simp
    next
      case False
      then show ?thesis by simp
    qed
    moreover have "g' ! r ! c = g[j := row] ! r ! c"
      using rest Cons.prems(2,3) by (intro Cons.IH) simp_all
    ultimately show ?thesis by simp
  qed
qed

lemma clear_lines_none:
  assumes "snd (clear_lines b) = 0"
  shows "fst (clear_lines b) = b"
proof -
  have "filter complete_row (grid b) = []"
    using assms by (simp add: clear_lines_char)
  then have "filter (\<lambda>row. \<not> complete_row row) (grid b) = grid b"
    by (simp add: filter_empty_conv filter_id_conv)
  then show ?thesis
    using \<open>filter complete_row (grid b) = []\<close> by (simp add: clear_lines_char)
qed

lemma clear_lines_some:
  assumes "board_ok b" and "snd (clear_lines b) \<noteq> 0"
  shows "row0_empty (fst (clear_lines b))"
proof -
  obtain m where "length (filter complete_row (grid b)) = Suc m"
    using assms(2) by (cases "length (filter complete_row (grid b))") (simp_all add: clear_lines_char)
  then show ?thesis
    by (simp add: clear_lines_char row0_empty_def list_all_iff)
qed

text \<open>
  A lock of a valid piece over an empty top row that finds the top row occupied has
  written a cell of the piece into it.
\<close>

lemma top_out_invalid:
  assumes "board_ok b" and "row0_empty b" and "is_valid_position b p = Inr True"
    and "Board_lock_piece b p = Inr b1" and "clear_lines b1 = (b2, lines)"
    and "is_game_over b2 = Inr True"
  shows "is_valid_position b2 p = Inr False"
proof -
  have ok1: "board_ok b1"
    using Board_lock_piece_shape [OF assms(1,4)] .
  have ok2: "board_ok b2"
    using clear_lines_shape [OF ok1] assms(5) by simp
  have occupied: "list_ex (\<lambda>cell. cell \<noteq> None) (grid b2 ! 0)"
    using is_game_over_total [OF ok2] assms(6) by simp
  have "lines = 0"
  proof (rule ccontr)
    assume "lines \<noteq> 0"
    then have "row0_empty b2"
      using clear_lines_some [OF ok1] assms(5) by simp
    then show False
      using occupied by (auto simp: row0_empty_def list_all_iff list_ex_iff)
  qed
  then have same: "b2 = b1"
    using clear_lines_none [of b1] assms(5) by simp
  obtain c where c: "c < length (grid b1 ! 0)" "grid b1 ! 0 ! c \<noteq> None"
    using occupied same by (auto simp: list_ex_length)
  have c10: "c < 10"
    using c(1) board_ok_row [OF ok1, of 0] by simp
  have old: "grid b ! 0 ! c = None"
    using row0_cell [OF assms(1,2), of "int c"] c10 by simp
  obtain g' where g': "lock_cells (type p) (grid b) (get_positions p) = Inr g'"
    and b1: "b1 = b\<lparr>grid := g'\<rparr>"
    using assms(4) by (auto simp: Board_lock_piece_def split: sum.splits)
  have nonneg: "\<forall>pos \<in> set (get_positions p). 0 \<le> fst pos"
    using valid_cells_in_range [OF assms(1,3)] by blast
  have "(int c, int 0) \<in> set (get_positions p)"
  proof (rule ccontr)
    assume "(int c, int 0) \<notin> set (get_positions p)"
    then have "g' ! 0 ! c = grid b ! 0 ! c"
      by (rule lock_cells_unchanged [OF g' nonneg])
    then show False using c(2) old b1 by simp
  qed
  moreover have "cell_rejected b1 (int c, int 0)"
    using c(2) by (simp add: cell_rejected_def)
  ultimately have "list_ex (cell_rejected b1) (get_positions p)"
    by (auto simp: list_ex_iff)
  then show ?thesis
    using ok1 same by (simp add: is_valid_position_char)
qed

lemma Tetris_lock_piece_over:
  assumes "engine_inv t" and "\<not> game_over t"
    and "is_valid_position (board t) (current_piece t) = Inr True"
    and "row0_empty (board t)"
    and "Tetris_lock_piece k t = Inr t'"
  shows "over_inv t'"
proof -
  have ok: "board_ok (board t)"
    using assms(1) by (simp add: engine_inv_def)
  obtain b1 where b1: "Board_lock_piece (board t) (current_piece t) = Inr b1" and ok1: "board_ok b1"
    using Board_lock_piece_total [OF ok assms(3)] by blast
  obtain b2 lines where cl: "clear_lines b1 = (b2, lines)"
    by (cases "clear_lines b1")
  have ok2: "board_ok b2"
    using clear_lines_shape [OF ok1] cl by simp
  have over: "is_game_over b2 = Inr True \<or> is_game_over b2 = Inr False"
    using is_game_over_total [OF ok2] by auto
  have spawn: "is_valid_position b2 (next_piece t) = Inr True
      \<or> is_valid_position b2 (next_piece t) = Inr False"
    using ok2 by (auto simp: is_valid_position_char)
  from over show ?thesis
  proof
    assume top: "is_game_over b2 = Inr True"
    have "is_valid_position b2 (current_piece t) = Inr False"
      using top_out_invalid [OF ok assms(4,3) b1 cl top] .
    then show ?thesis
      using assms(5) b1 cl top
      by (cases "0 < lines") (auto simp: Tetris_lock_piece_def Let_def over_inv_def)
  next
    assume "is_game_over b2 = Inr False"
    then show ?thesis
      using assms(2,5) b1 cl spawn
      by (cases "0 < lines") (auto simp: Tetris_lock_piece_def Let_def over_inv_def)
  qed
qed

lemma move_down_over:
  assumes "engine_inv t" and "\<not> game_over t" and "move_down k t = Inr r"
  shows "over_inv (snd r)"
proof -
  let ?q = "(current_piece t)\<lparr>y := y (current_piece t) + 1\<rparr>"
  have ok: "board_ok (board t)" and r0: "row0_empty (board t)"
    and v: "is_valid_position (board t) (current_piece t) = Inr True"
    using assms(1,2) by (simp_all add: engine_inv_def)
  show ?thesis
  proof (cases "is_valid_position (board t) ?q = Inr True")
    case True
    then have "r = (True, t\<lparr>current_piece := ?q\<rparr>)"
      using assms(3) by (simp add: move_down_def set_y_def Let_def)
    then show ?thesis using assms(2) by (simp add: over_inv_def)
  next
    case False
    then have "is_valid_position (board t) ?q = Inr False"
      using ok by (simp add: is_valid_position_bool)
    then have "Tetris_lock_piece k t = Inr (snd r)"
      using assms(3) by (auto simp: move_down_def set_y_def Let_def split: sum.splits)
    then show ?thesis
      using Tetris_lock_piece_over [OF assms(1,2) v r0] by simp
  qed
qed

lemma hard_drop_over:
  assumes "engine_inv t" and "\<not> game_over t" and "hard_drop k t = Some (Inr t')"
  shows "over_inv t'"
proof -
  have ok: "board_ok (board t)" and pk: "piece_ok (current_piece t)"
    and r0: "row0_empty (board t)"
    and v: "is_valid_position (board t) (current_piece t) = Inr True"
    using assms(1,2) by (simp_all add: engine_inv_def)
  from hard_drop_general [OF ok v piece_ok_has_cells [OF pk], of k] assms(3)
  obtain n where
    valid: "is_valid_position (board t)
        (current_piece (set_y (y (current_piece t) + int n) t)) = Inr True"
    and lock: "Tetris_lock_piece k (set_y (y (current_piece t) + int n) t) = Inr t'"
    by auto
  let ?tn = "set_y (y (current_piece t) + int n) t"
  have "engine_inv ?tn"
    using engine_inv_shift [OF assms(1,2), where ax = "x (current_piece t)"
        and ay = "y (current_piece t) + int n"] valid
    by (simp add: set_y_piece)
  moreover have "\<not> game_over ?tn" "row0_empty (board ?tn)"
    using assms(2) r0 by (simp_all add: set_y_piece)
  ultimately show ?thesis
    using valid lock by (intro Tetris_lock_piece_over [of ?tn k t']) simp_all
qed

lemma keydown_playing_over:
  assumes "engine_inv t" and "over_inv t"
    and "keydown_playing event_key k1 k2 now t = Some (Inr (ui, t'))"
  shows "over_inv t'"
proof (cases "game_over t")
  case True
  then have "t' = t \<or> t' = Tetris_reset k1 k2 now t"
    using assms(3) by (auto simp: keydown_playing_def split: if_splits)
  then show ?thesis using assms(2) by (auto simp: over_inv_def Tetris_reset_def)
next
  case False
  consider "t' = t" | "move_left t = Inr t'" | "move_right t = Inr t'"
    | r where "move_down k1 t = Inr r" "t' = snd r" | "rotate_piece t = Inr t'"
    | "hard_drop k1 t = Some (Inr t')"
    using assms(3) False
    by (auto simp: keydown_playing_def split: if_splits sum.splits option.splits)
  then show ?thesis
  proof cases
    case 1
    then show ?thesis using assms(2) by simp
  next
    case 2
    then show ?thesis using move_left_inv [OF assms(1) False] by (simp add: over_inv_def)
  next
    case 3
    then show ?thesis using move_right_inv [OF assms(1) False] by (simp add: over_inv_def)
  next
    case 4
    then show ?thesis using move_down_over [OF assms(1) False] by simp
  next
    case 5
    then show ?thesis using rotate_piece_inv [OF assms(1) False] by (simp add: over_inv_def)
  next
    case 6
    then show ?thesis using hard_drop_over [OF assms(1) False] by simp
  qed
qed

lemma update_over:
  assumes "engine_inv t" and "over_inv t" and "update k now t = Inr t'"
  shows "over_inv t'"
proof (cases "game_over t \<or> \<not> now - last_fall_time t > fall_speed t")
  case True
  then have "t' = t" using assms(3) by (auto simp: update_def split: if_splits)
  then show ?thesis using assms(2) by simp
next
  case False
  then obtain r where r: "move_down k t = Inr r" and t': "t' = (snd r)\<lparr>last_fall_time := now\<rparr>"
    using assms(3) by (auto simp: update_def split: sum.splits)
  have "over_inv (snd r)"
    using move_down_over [OF assms(1) _ r] False by simp
  then show ?thesis
    using t' by (simp add: over_inv_def)
qed

lemma reachable_over: "reachable t \<Longrightarrow> over_inv t"
proof (induction rule: reachable.induct)
  case (start k1 k2 now)
  show ?case by (simp add: over_inv_def Tetris_init_def)
next
  case (keydown t event_key k1 k2 now ui t')
  then show ?case using reachable_inv keydown_playing_over by blast
next
  case (tick t k now t')
  then show ?case using reachable_inv update_over by blast
qed

text \<open>In a reachable state the piece is never so high that a hard drop needs a 22nd call.\<close>

lemma drop_bound:
  assumes "engine_inv t" and "\<not> game_over t"
    and "\<forall>j \<le> n. is_valid_position (board t)
           (current_piece (set_y (y (current_piece t) + int j) t)) = Inr True"
    and "\<forall>c \<in> set (get_positions (current_piece t)). int n + 1 \<le> 20 - snd c"
  shows "n + 1 \<le> 21"
proof -
  let ?p = "current_piece t" and ?b = "board t"
  let ?h = "int (length (shape ?p))"
  have ok: "board_ok ?b" and pk: "piece_ok ?p"
    and v: "is_valid_position ?b ?p = Inr True" and h: "height_inv t"
    using assms(1,2) by (simp_all add: engine_inv_def)
  have tight: "shape_tight (shape ?p)" and dims: "shape_dims (type ?p) (shape ?p)"
    using piece_ok_tight [OF pk] by simp_all
  obtain c where "c \<in> set (get_positions ?p)" "snd c = y ?p + ?h - 1"
    using tight_last_row [OF tight] by blast
  then have low: "int n + 1 \<le> 21 - y ?p - ?h"
    using assms(4) by fastforce
  show ?thesis
  proof (cases "0 \<le> y ?p + ?h")
    case True
    then show ?thesis using low by simp
  next
    case False
    have hpos: "1 \<le> ?h"
      using tight by (simp add: shape_tight_def)
    have I: "type ?p = KI"
    proof (rule ccontr)
      assume "type ?p \<noteq> KI"
      then have "2 \<le> ?h" "- 2 \<le> y ?p"
        using dims h False hpos by (auto simp: shape_dims_def height_inv_def)
      then show False using False by simp
    qed
    then have flat: "?h = 1" "shape_width (shape ?p) = 4"
      and yr: "- 3 \<le> y ?p" "y ?p \<le> - 2" and tw: "towers ?b"
      using dims h False hpos by (auto simp: shape_dims_def height_inv_def)
    have xr: "0 \<le> x ?p" "x ?p \<le> 6"
      using valid_x_range [OF ok tight v] flat(2) by simp_all
    obtain d where d: "d \<in> set (get_positions ?p)" "fst d = x ?p"
      using tight_first_column [OF tight] by blast
    have dy: "snd d = y ?p"
      using tight_box [OF tight d(1)] flat(1) by simp
    have "col_blocked ?b (x ?p) 4"
      using tw xr by (simp add: towers_def)
    then obtain r where r: "r < 4" "grid ?b ! r ! nat (x ?p) \<noteq> None"
      by (auto simp: col_blocked_def list_ex_iff)
    let ?j = "nat (int r - y ?p)"
    have "\<not> ?j \<le> n"
    proof
      assume "?j \<le> n"
      then have vj: "is_valid_position ?b (current_piece (set_y (y ?p + int ?j) t)) = Inr True"
        using assms(3) by blast
      have "(fst d, snd d + int ?j) \<in> set (get_positions (current_piece (set_y (y ?p + int ?j) t)))"
        using d(1) by (force simp: positions_set_y)
      then have "(x ?p, int r) \<in> set (get_positions (current_piece (set_y (y ?p + int ?j) t)))"
        using d(2) dy yr by simp
      from valid_cells_in_range [OF ok vj this]
      have "grid ?b ! nat (int r) ! nat (x ?p) = None" by simp
      then show False using r(2) by simp
    qed
    then show ?thesis using r(1) yr by simp
  qed
qed

lemma reachable_valid_playing:
  assumes "reachable t" and "is_valid_position (board t) (current_piece t) = Inr True"
  shows "\<not> game_over t"
  using reachable_over [OF assms(1)] assms(2) by (auto simp: over_inv_def)

text \<open>
  Claim C9, as the code has it.  On a regular board, with a piece of the catalogue at a
  valid position, \<open>hard_drop\<close> returns; its result is the state after \<open>n + 1\<close> calls of
  \<open>move_down\<close>, of which the first \<open>n\<close> return \<open>True\<close> and the last returns \<open>False\<close>.  For
  every cell of the piece, in row \<open>r\<close> say, \<open>n + 1 \<le> 20 - r\<close>; so \<open>n + 1 \<le> 21\<close> when some
  cell is in row \<open>\<ge> -1\<close>, and \<open>n + 1 \<le> 21\<close> as well in every state that a game can reach.
  The last call locks the piece where it stands after \<open>n\<close> rows; then either the game is
  over and the piece stays, or the next piece has become the active one.
\<close>

theorem hard_drop_locks_piece:
  assumes "board_ok (board t)"
    and "piece_ok (current_piece t)"
    and "is_valid_position (board t) (current_piece t) = Inr True"
  shows "\<exists>n t'.
      move_down_seq (replicate (n + 1) k) t = Inr (replicate n True @ [False], t')
      \<and> hard_drop k t = Some (Inr t')
      \<and> (\<forall>c \<in> set (get_positions (current_piece t)). int n + 1 \<le> 20 - snd c)
      \<and> (list_ex (\<lambda>c. - 1 \<le> snd c) (get_positions (current_piece t)) \<longrightarrow> n + 1 \<le> 21)
      \<and> (reachable t \<longrightarrow> n + 1 \<le> 21)
      \<and> Tetris_lock_piece k (set_y (y (current_piece t) + int n) t) = Inr t'
      \<and> (game_over t' \<and> current_piece t' = current_piece (set_y (y (current_piece t) + int n) t)
         \<or> current_piece t' = next_piece t \<and> next_piece t' = Piece_init k)"
proof -
  from hard_drop_general [OF assms(1,3) piece_ok_has_cells [OF assms(2)], of k]
  obtain n t' where
    seq: "move_down_seq (replicate (n + 1) k) t = Inr (replicate n True @ [False], t')"
    and drop: "hard_drop k t = Some (Inr t')"
    and valid: "\<forall>j \<le> n. is_valid_position (board t)
             (current_piece (set_y (y (current_piece t) + int j) t)) = Inr True"
    and bound: "\<forall>c \<in> set (get_positions (current_piece t)). int n + 1 \<le> 20 - snd c"
    and lock: "Tetris_lock_piece k (set_y (y (current_piece t) + int n) t) = Inr t'"
    and after: "game_over t' \<and> current_piece t' = current_piece (set_y (y (current_piece t) + int n) t)
         \<or> current_piece t' = next_piece t \<and> next_piece t' = Piece_init k"
    by blast
  have near: "n + 1 \<le> 21"
    if "list_ex (\<lambda>c. - 1 \<le> snd c) (get_positions (current_piece t))"
  proof -
    from that obtain d where "d \<in> set (get_positions (current_piece t))" and "- 1 \<le> snd d"
      by (auto simp: list_ex_iff)
    with bound show ?thesis by fastforce
  qed
  have played: "n + 1 \<le> 21" if "reachable t"
  proof -
    have "engine_inv t"
      using that by (rule reachable_inv)
    moreover have "\<not> game_over t"
      using that assms(3) by (rule reachable_valid_playing)
    ultimately show ?thesis
      using valid bound by (rule drop_bound)
  qed
  show ?thesis
    using seq drop bound near played lock after
    by (intro exI [of _ n] exI [of _ t']) simp
qed

theorem hard_drop_locks_piece_witness:
  "board_ok (board (Tetris_init KO KT 0))
   \<and> piece_ok (current_piece (Tetris_init KO KT 0))
   \<and> is_valid_position (board (Tetris_init KO KT 0)) (current_piece (Tetris_init KO KT 0)) = Inr True
   \<and> reachable (Tetris_init KO KT 0)
   \<and> (\<exists>n t'. n + 1 \<le> 21
          \<and> move_down_seq (replicate (n + 1) KI) (Tetris_init KO KT 0)
              = Inr (replicate n True @ [False], t')
          \<and> hard_drop KI (Tetris_init KO KT 0) = Some (Inr t')
          \<and> current_piece t' = Piece_init KT)"
proof -
  have b: "board_ok (board (Tetris_init KO KT 0))"
    by (simp add: Tetris_init_def board_ok_init)
  have p: "piece_ok (current_piece (Tetris_init KO KT 0))"
    by (simp add: Tetris_init_def piece_ok_init)
  have v: "is_valid_position (board (Tetris_init KO KT 0)) (current_piece (Tetris_init KO KT 0))
      = Inr True"
    by code_simp
  have r: "reachable (Tetris_init KO KT 0)"
    by (rule reachable.start)
  have g: "\<not> game_over (projr (the (hard_drop KI (Tetris_init KO KT 0))))"
    by code_simp
  have nx: "next_piece (Tetris_init KO KT 0) = Piece_init KT"
    by (simp add: Tetris_init_def)
  from hard_drop_locks_piece [OF b p v, of KI] r g nx
  have "\<exists>n t'. n + 1 \<le> 21
          \<and> move_down_seq (replicate (n + 1) KI) (Tetris_init KO KT 0)
              = Inr (replicate n True @ [False], t')
          \<and> hard_drop KI (Tetris_init KO KT 0) = Some (Inr t')
          \<and> current_piece t' = Piece_init KT"
    by auto
  then show ?thesis using b p v r by simp
qed

section \<open>The boards of the engine\<close>

lemma Tetris_lock_piece_board:
  assumes "Tetris_lock_piece k t = Inr t'"
  shows "\<exists>b1. Board_lock_piece (board t) (current_piece t) = Inr b1 \<and> board t' = fst (clear_lines b1)"
proof -
  obtain b1 where b1: "Board_lock_piece (board t) (current_piece t) = Inr b1"
    using assms by (auto simp: Tetris_lock_piece_def split: sum.splits)
  obtain b2 lines where cl: "clear_lines b1 = (b2, lines)"
    by (cases "clear_lines b1")
  have "board t' = b2"
    using assms b1 cl
    by (cases "0 < lines") (auto simp: Tetris_lock_piece_def Let_def split: sum.splits if_splits)
  then show ?thesis using b1 cl by simp
qed

lemma lock_reachable_board:
  assumes "reachable_board (board t)"
    and "is_valid_position (board t) (current_piece t) = Inr True"
    and "Tetris_lock_piece k t = Inr t'"
  shows "reachable_board (board t')"
proof -
  obtain b1 where b1: "Board_lock_piece (board t) (current_piece t) = Inr b1"
    and t': "board t' = fst (clear_lines b1)"
    using Tetris_lock_piece_board [OF assms(3)] by blast
  have "reachable_board b1"
    using assms(1,2) b1 by (rule reachable_board.locked)
  then show ?thesis
    unfolding t' by (rule reachable_board.cleared)
qed

lemma move_down_reachable_board:
  assumes "engine_inv t" and "\<not> game_over t" and "reachable_board (board t)"
    and "move_down k t = Inr r"
  shows "reachable_board (board (snd r))"
proof -
  let ?q = "(current_piece t)\<lparr>y := y (current_piece t) + 1\<rparr>"
  have ok: "board_ok (board t)"
    and v: "is_valid_position (board t) (current_piece t) = Inr True"
    using assms(1,2) by (simp_all add: engine_inv_def)
  show ?thesis
  proof (cases "is_valid_position (board t) ?q = Inr True")
    case True
    then have "r = (True, t\<lparr>current_piece := ?q\<rparr>)"
      using assms(4) by (simp add: move_down_def set_y_def Let_def)
    then show ?thesis using assms(3) by simp
  next
    case False
    then have "is_valid_position (board t) ?q = Inr False"
      using ok by (simp add: is_valid_position_bool)
    then have "Tetris_lock_piece k t = Inr (snd r)"
      using assms(4) by (auto simp: move_down_def set_y_def Let_def split: sum.splits)
    with assms(3) v show ?thesis
      by (rule lock_reachable_board)
  qed
qed

lemma hard_drop_reachable_board:
  assumes "engine_inv t" and "\<not> game_over t" and "reachable_board (board t)"
    and "hard_drop k t = Some (Inr t')"
  shows "reachable_board (board t')"
proof -
  have ok: "board_ok (board t)" and pk: "piece_ok (current_piece t)"
    and v: "is_valid_position (board t) (current_piece t) = Inr True"
    using assms(1,2) by (simp_all add: engine_inv_def)
  from hard_drop_general [OF ok v piece_ok_has_cells [OF pk], of k] assms(4)
  obtain n where
    valid: "is_valid_position (board t)
        (current_piece (set_y (y (current_piece t) + int n) t)) = Inr True"
    and lock: "Tetris_lock_piece k (set_y (y (current_piece t) + int n) t) = Inr t'"
    by auto
  have "reachable_board (board (set_y (y (current_piece t) + int n) t))"
    using assms(3) by simp
  moreover have "is_valid_position (board (set_y (y (current_piece t) + int n) t))
      (current_piece (set_y (y (current_piece t) + int n) t)) = Inr True"
    using valid by simp
  ultimately show ?thesis
    using lock by (rule lock_reachable_board)
qed

text \<open>
  The board of every engine state that a game can reach is a board in the sense of
  \<open>reachable_board\<close>: the engine locks only pieces that stand at a valid position.
\<close>

lemma reachable_engine_board: "reachable t \<Longrightarrow> reachable_board (board t)"
proof (induction rule: reachable.induct)
  case (start k1 k2 now)
  show ?case by (simp add: Tetris_init_def reachable_board.fresh)
next
  case (keydown t event_key k1 k2 now ui t')
  have inv: "engine_inv t"
    using keydown.hyps(1) by (rule reachable_inv)
  show ?case
  proof (cases "game_over t")
    case True
    then have "t' = t \<or> t' = Tetris_reset k1 k2 now t"
      using keydown.hyps(2) by (auto simp: keydown_playing_def split: if_splits)
    then show ?thesis
      using keydown.IH by (auto simp: Tetris_reset_def reachable_board.reset)
  next
    case False
    consider "t' = t" | "move_left t = Inr t'" | "move_right t = Inr t'"
      | r where "move_down k1 t = Inr r" "t' = snd r" | "rotate_piece t = Inr t'"
      | "hard_drop k1 t = Some (Inr t')"
      using keydown.hyps(2) False
      by (auto simp: keydown_playing_def split: if_splits sum.splits option.splits)
    then show ?thesis
    proof cases
      case 1
      then show ?thesis using keydown.IH by simp
    next
      case 2
      then show ?thesis using keydown.IH move_left_frame [of t t'] by simp
    next
      case 3
      then show ?thesis using keydown.IH move_right_frame [of t t'] by simp
    next
      case 4
      then show ?thesis
        using move_down_reachable_board [OF inv False keydown.IH] by simp
    next
      case 5
      then show ?thesis using keydown.IH rotate_piece_frame [of t t'] by simp
    next
      case 6
      then show ?thesis
        using hard_drop_reachable_board [OF inv False keydown.IH] by simp
    qed
  qed
next
  case (tick t k now t')
  have inv: "engine_inv t"
    using tick.hyps(1) by (rule reachable_inv)
  show ?case
  proof (cases "game_over t \<or> \<not> now - last_fall_time t > fall_speed t")
    case True
    then have "t' = t" using tick.hyps(2) by (auto simp: update_def split: if_splits)
    then show ?thesis using tick.IH by simp
  next
    case False
    then obtain r where r: "move_down k t = Inr r" and t': "t' = (snd r)\<lparr>last_fall_time := now\<rparr>"
      using tick.hyps(2) by (auto simp: update_def split: sum.splits)
    have "reachable_board (board (snd r))"
      using move_down_reachable_board [OF inv _ tick.IH r] False by simp
    then show ?thesis using t' by simp
  qed
qed

end
